theory Spec2Isabelle
  imports Complex_Main
begin

unbundle bit_operations_syntax

section \<open>The number cell of QuantumNumberV8Demo28.py on an explicit store\<close>

text \<open>
  A Python object is a reference, so the cells live in a store: a list of cells, an
  address being an index into it.  A constructor call appends a cell and returns its
  index; a link field holds \<open>None\<close> or the address of a cell.  The six coefficients are
  Python integers (unbounded), as are \<open>signs\<close> and \<open>metadata\<close>.  The coefficient fields
  \<open>a\<close> .. \<open>f\<close> are written \<open>ca\<close> .. \<open>cf\<close>, the link \<open>in_\<close> is written \<open>in_ptr\<close>.
\<close>

type_synonym addr = nat

record cell =
  signs :: int
  metadata :: int
  ca :: int
  cb :: int
  cc :: int
  cd :: int
  ce :: int
  cf :: int
  left :: "addr option"
  right :: "addr option"
  up :: "addr option"
  down :: "addr option"
  in_ptr :: "addr option"
  out :: "addr option"

type_synonym heap = "cell list"

text \<open>\<open>QuantumNumberV8.__init__\<close>: every number zero, every link \<open>None\<close>.\<close>

definition new_cell :: cell where
  "new_cell = \<lparr>signs = 0, metadata = 0, ca = 0, cb = 0, cc = 0, cd = 0, ce = 0, cf = 0,
     left = None, right = None, up = None, down = None, in_ptr = None, out = None\<rparr>"

definition alloc :: "heap \<Rightarrow> cell \<Rightarrow> heap \<times> addr" where
  "alloc h q = (h @ [q], length h)"

text \<open>The field names the loops of \<open>add\<close> and \<open>scale_by_int\<close> run over, with
  \<open>getattr\<close> and \<open>setattr\<close> on them.\<close>

datatype field = FA | FB | FC | FD | FE | FF

definition field_names :: "field list" where
  "field_names = [FA, FB, FC, FD, FE, FF]"

fun getattr :: "cell \<Rightarrow> field \<Rightarrow> int" where
  "getattr q FA = ca q"
| "getattr q FB = cb q"
| "getattr q FC = cc q"
| "getattr q FD = cd q"
| "getattr q FE = ce q"
| "getattr q FF = cf q"

fun setattr :: "cell \<Rightarrow> field \<Rightarrow> int \<Rightarrow> cell" where
  "setattr q FA v = q\<lparr>ca := v\<rparr>"
| "setattr q FB v = q\<lparr>cb := v\<rparr>"
| "setattr q FC v = q\<lparr>cc := v\<rparr>"
| "setattr q FD v = q\<lparr>cd := v\<rparr>"
| "setattr q FE v = q\<lparr>ce := v\<rparr>"
| "setattr q FF v = q\<lparr>cf := v\<rparr>"

text \<open>
  One round of the loop of \<open>add\<close> (lines 45-53): the sum of the two fields is read from
  the store as it is at that moment, \<open>self\<close> and the carry cell are written.
\<close>

definition add_field :: "addr \<Rightarrow> addr \<Rightarrow> addr \<Rightarrow> field \<Rightarrow> heap \<times> bool \<Rightarrow> heap \<times> bool" where
  "add_field self other carry fld st =
     (let (h, carry_flag) = st;
          val = getattr (h ! self) fld + getattr (h ! other) fld
      in if val > 10
         then (let h1 = h[self := setattr (h ! self) fld (val - 10)];
                   h2 = h1[carry := setattr (h1 ! carry) fld 1]
               in (h2, True))
         else (let h1 = h[self := setattr (h ! self) fld val];
                   h2 = h1[carry := setattr (h1 ! carry) fld 0]
               in (h2, carry_flag)))"

definition add_loop :: "heap \<Rightarrow> addr \<Rightarrow> addr \<Rightarrow> addr \<Rightarrow> heap \<times> bool" where
  "add_loop h self other carry = fold (add_field self other carry) field_names (h, False)"

text \<open>The closed form of the loop: what is kept in a field, and what is carried.\<close>

definition kept :: "int \<Rightarrow> int" where
  "kept v = (if v > 10 then v - 10 else v)"

definition flagged :: "int \<Rightarrow> int" where
  "flagged v = (if v > 10 then 1 else 0)"

definition cell_add :: "cell \<Rightarrow> cell \<Rightarrow> cell" where
  "cell_add s t = s\<lparr>ca := kept (ca s + ca t), cb := kept (cb s + cb t), cc := kept (cc s + cc t),
     cd := kept (cd s + cd t), ce := kept (ce s + ce t), cf := kept (cf s + cf t)\<rparr>"

definition cell_carry :: "cell \<Rightarrow> cell \<Rightarrow> cell" where
  "cell_carry s t = new_cell\<lparr>ca := flagged (ca s + ca t), cb := flagged (cb s + cb t),
     cc := flagged (cc s + cc t), cd := flagged (cd s + cd t), ce := flagged (ce s + ce t),
     cf := flagged (cf s + cf t)\<rparr>"

definition overflows :: "cell \<Rightarrow> cell \<Rightarrow> bool" where
  "overflows s t \<longleftrightarrow> ca s + ca t > 10 \<or> cb s + cb t > 10 \<or> cc s + cc t > 10 \<or>
     cd s + cd t > 10 \<or> ce s + ce t > 10 \<or> cf s + cf t > 10"

lemma add_field_step:
  assumes "self < length h" "other < length h"
  shows "add_field self other (length h) fld (h[self := s] @ [c], flag) =
     (h[self := setattr s fld (kept (getattr s fld + getattr ((h[self := s]) ! other) fld))]
        @ [setattr c fld (flagged (getattr s fld + getattr ((h[self := s]) ! other) fld))],
      flag \<or> getattr s fld + getattr ((h[self := s]) ! other) fld > 10)"
  using assms
  by (simp add: add_field_def nth_append list_update_append Let_def kept_def flagged_def)

lemma add_loop_closed:
  assumes "self < length h" "other < length h"
  shows "add_loop (h @ [new_cell]) self other (length h) =
         (h[self := cell_add (h ! self) (h ! other)] @ [cell_carry (h ! self) (h ! other)],
          overflows (h ! self) (h ! other))"
proof -
  have start: "h @ [new_cell] = h[self := h ! self] @ [new_cell]"
    by simp
  show ?thesis
    unfolding add_loop_def field_names_def
    apply (subst start)
    apply (simp only: fold.simps o_apply id_apply add_field_step[OF assms])
    apply (cases "other = self")
    using assms
     apply (simp_all add: cell_add_def cell_carry_def overflows_def)
    done
qed

text \<open>
  \<open>add\<close> calls itself on the left link.  The recursion ends on every store, also on one
  whose left links form a cycle: each round that carries takes at least 8 from the sum of
  the positive parts of all coefficients, the operand counted twice.
\<close>

definition cellsum :: "cell \<Rightarrow> nat" where
  "cellsum q = nat (ca q) + nat (cb q) + nat (cc q) + nat (cd q) + nat (ce q) + nat (cf q)"

definition heapsum :: "heap \<Rightarrow> nat" where
  "heapsum h = sum_list (map cellsum h)"

lemma heapsum_update:
  "i < length h \<Longrightarrow> heapsum (h[i := q]) + cellsum (h ! i) = heapsum h + cellsum q"
  unfolding heapsum_def
proof (induction h arbitrary: i)
  case Nil
  then show ?case by simp
next
  case (Cons x xs)
  then show ?case by (cases i) auto
qed

lemma heapsum_snoc: "heapsum (h @ [q]) = heapsum h + cellsum q"
  by (simp add: heapsum_def)

lemma kept_flagged_le: "nat (kept (x + y)) + 2 * nat (flagged (x + y)) \<le> nat x + nat y"
proof (cases "x + y > 10")
  case True
  then have "kept (x + y) = x + y - 10" "flagged (x + y) = 1"
    by (simp_all add: kept_def flagged_def)
  with True show ?thesis by simp
next
  case False
  then have "kept (x + y) = x + y" "flagged (x + y) = 0"
    by (simp_all add: kept_def flagged_def)
  then show ?thesis by (simp add: nat_add_distrib nat_le_iff)
qed

lemma kept_flagged_less:
  "x + y > 10 \<Longrightarrow> nat (kept (x + y)) + 2 * nat (flagged (x + y)) < nat x + nat y"
  unfolding kept_def flagged_def by simp

lemma six_sums_less:
  fixes x1 x2 x3 x4 x5 x6 y1 y2 y3 y4 y5 y6 :: nat
  assumes "x1 \<le> y1" "x2 \<le> y2" "x3 \<le> y3" "x4 \<le> y4" "x5 \<le> y5" "x6 \<le> y6"
    and "x1 < y1 \<or> x2 < y2 \<or> x3 < y3 \<or> x4 < y4 \<or> x5 < y5 \<or> x6 < y6"
  shows "x1 + x2 + x3 + x4 + x5 + x6 < y1 + y2 + y3 + y4 + y5 + y6"
  using assms by linarith

lemma cellsum_add_less:
  assumes "overflows s t"
  shows "cellsum (cell_add s t) + 2 * cellsum (cell_carry s t) < cellsum s + cellsum t"
proof -
  have eq: "cellsum (cell_add s t) + 2 * cellsum (cell_carry s t) =
      (nat (kept (ca s + ca t)) + 2 * nat (flagged (ca s + ca t))) +
      (nat (kept (cb s + cb t)) + 2 * nat (flagged (cb s + cb t))) +
      (nat (kept (cc s + cc t)) + 2 * nat (flagged (cc s + cc t))) +
      (nat (kept (cd s + cd t)) + 2 * nat (flagged (cd s + cd t))) +
      (nat (kept (ce s + ce t)) + 2 * nat (flagged (ce s + ce t))) +
      (nat (kept (cf s + cf t)) + 2 * nat (flagged (cf s + cf t)))"
    by (simp add: cellsum_def cell_add_def cell_carry_def new_cell_def)
  have eq2: "cellsum s + cellsum t = (nat (ca s) + nat (ca t)) + (nat (cb s) + nat (cb t))
      + (nat (cc s) + nat (cc t)) + (nat (cd s) + nat (cd t)) + (nat (ce s) + nat (ce t))
      + (nat (cf s) + nat (cf t))"
    by (simp add: cellsum_def)
  have strict: "nat (kept (ca s + ca t)) + 2 * nat (flagged (ca s + ca t)) < nat (ca s) + nat (ca t)
     \<or> nat (kept (cb s + cb t)) + 2 * nat (flagged (cb s + cb t)) < nat (cb s) + nat (cb t)
     \<or> nat (kept (cc s + cc t)) + 2 * nat (flagged (cc s + cc t)) < nat (cc s) + nat (cc t)
     \<or> nat (kept (cd s + cd t)) + 2 * nat (flagged (cd s + cd t)) < nat (cd s) + nat (cd t)
     \<or> nat (kept (ce s + ce t)) + 2 * nat (flagged (ce s + ce t)) < nat (ce s) + nat (ce t)
     \<or> nat (kept (cf s + cf t)) + 2 * nat (flagged (cf s + cf t)) < nat (cf s) + nat (cf t)"
    using assms kept_flagged_less unfolding overflows_def by blast
  show ?thesis
    unfolding eq eq2
    by (rule six_sums_less[OF kept_flagged_le kept_flagged_le kept_flagged_le kept_flagged_le
          kept_flagged_le kept_flagged_le strict])
qed

text \<open>
  \<open>QuantumNumberV8.add\<close> (lines 40-59).  A reference always denotes a live object, so
  the addresses of a call are inside the store; outside it the model returns the store.
  A cell is truthy (the class has no \<open>__bool__\<close>), so \<open>if self.left\<close> asks whether the
  link is set.
\<close>

function add_d28 :: "heap \<Rightarrow> addr \<Rightarrow> addr \<Rightarrow> heap" where
  "add_d28 h self other =
     (if self < length h \<and> other < length h then
        (let (h0, carry) = alloc h new_cell;
             (h1, carry_flag) = add_loop h0 self other carry
         in if carry_flag then
              (case left (h1 ! self) of
                 Some l \<Rightarrow> add_d28 h1 l carry
               | None \<Rightarrow> h1[self := (h1 ! self)\<lparr>left := Some carry\<rparr>])
            else h1)
      else h)"
  by pat_completeness auto
termination
proof (relation "measure (\<lambda>(h, self, other). heapsum h + cellsum (h ! other))", goal_cases)
  case 1
  then show ?case by simp
next
  case (2 h self other x h0 carry y h1 carry_flag l)
  then have self: "self < length h" and other: "other < length h"
    and h0: "h0 = h @ [new_cell]" and carry: "carry = length h"
    by (simp_all add: alloc_def)
  from 2 have loop: "add_loop (h @ [new_cell]) self other (length h) = (h1, carry_flag)"
    by (simp add: alloc_def)
  from loop have h1: "h1 = h[self := cell_add (h ! self) (h ! other)] @ [cell_carry (h ! self) (h ! other)]"
    and ov: "overflows (h ! self) (h ! other)"
    using 2 by (simp_all add: add_loop_closed[OF self other])
  have "heapsum h1 + cellsum (h1 ! carry) + cellsum (h ! self)
      = heapsum h + cellsum (cell_add (h ! self) (h ! other)) + 2 * cellsum (cell_carry (h ! self) (h ! other))"
    using heapsum_update[OF self, of "cell_add (h ! self) (h ! other)"]
    by (simp add: h1 carry heapsum_snoc nth_append)
  with cellsum_add_less[OF ov] show ?case by simp
qed

text \<open>One round of the loop of \<open>scale_by_int\<close> (lines 65-73).\<close>

definition scale_field :: "addr \<Rightarrow> int \<Rightarrow> addr \<Rightarrow> field \<Rightarrow> heap \<times> bool \<Rightarrow> heap \<times> bool" where
  "scale_field self scalar carry fld st =
     (let (h, carry_flag) = st;
          val = getattr (h ! self) fld * scalar
      in if val > 10
         then (let h1 = h[self := setattr (h ! self) fld (val mod 10)];
                   h2 = h1[carry := setattr (h1 ! carry) fld (val div 10)]
               in (h2, True))
         else (let h1 = h[self := setattr (h ! self) fld val];
                   h2 = h1[carry := setattr (h1 ! carry) fld 0]
               in (h2, carry_flag)))"

definition scale_loop :: "heap \<Rightarrow> addr \<Rightarrow> int \<Rightarrow> addr \<Rightarrow> heap \<times> bool" where
  "scale_loop h self scalar carry = fold (scale_field self scalar carry) field_names (h, False)"

definition scale_by_int_d28 :: "heap \<Rightarrow> addr \<Rightarrow> int \<Rightarrow> heap" where
  "scale_by_int_d28 h self scalar =
     (if self < length h then
        (let (h0, carry) = alloc h new_cell;
             (h1, carry_flag) = scale_loop h0 self scalar carry
         in if carry_flag then
              (case left (h1 ! self) of
                 Some l \<Rightarrow> add_d28 h1 l carry
               | None \<Rightarrow> h1[self := (h1 ! self)\<lparr>left := Some carry\<rparr>])
            else h1)
      else h)"

section \<open>Sign bits: QuantumNumberV8Demo5.py, Demo6.py, Demo7.py, Demo17.py\<close>

text \<open>
  These classes work on one cell and follow no link, so they are functions on the cell.
  Console output is left out.  \<open>toggle_sign_bit\<close>: \<open>signs ^= (1 << term_index)\<close>.
\<close>

definition toggle_sign_bit :: "cell \<Rightarrow> nat \<Rightarrow> cell" where
  "toggle_sign_bit q term_index = q\<lparr>signs := signs q XOR push_bit term_index 1\<rparr>"

definition multiply_by_d5 :: "cell \<Rightarrow> int \<Rightarrow> cell" where
  "multiply_by_d5 q factor =
     (let (q1, factor1) = (if factor < 0
            then (toggle_sign_bit (toggle_sign_bit q 0) 3, - factor)
            else (q, factor))
      in q1\<lparr>ce := ce q1 + factor1\<rparr>)"

definition divide_by_d5 :: "cell \<Rightarrow> int \<Rightarrow> cell" where
  "divide_by_d5 q divisor =
     (let (q1, divisor1) = (if divisor < 0
            then (toggle_sign_bit (toggle_sign_bit q 1) 4, - divisor)
            else (q, divisor))
      in q1\<lparr>cf := cf q1 + divisor1\<rparr>)"

text \<open>Demo6: the caller asks for the flip; \<open>0b000001\<close> is 1 and \<open>0b0001000\<close> is 8.\<close>

definition multiply_d6 :: "cell \<Rightarrow> int \<Rightarrow> bool \<Rightarrow> cell" where
  "multiply_d6 q factor sign_flip =
     (let q1 = q\<lparr>ce := ce q + factor\<rparr>
      in if sign_flip then q1\<lparr>signs := signs q1 XOR 1\<rparr> else q1)"

definition divide_d6 :: "cell \<Rightarrow> int \<Rightarrow> bool \<Rightarrow> cell" where
  "divide_d6 q factor sign_flip =
     (let q1 = q\<lparr>cf := cf q + factor\<rparr>
      in if sign_flip then q1\<lparr>signs := signs q1 XOR 8\<rparr> else q1)"

text \<open>Demo7: as Demo6, and \<open>metadata += 1\<close>.\<close>

definition multiply_d7 :: "cell \<Rightarrow> int \<Rightarrow> bool \<Rightarrow> cell" where
  "multiply_d7 q factor sign_flip =
     (let q1 = q\<lparr>ce := ce q + factor\<rparr>;
          q2 = (if sign_flip then q1\<lparr>signs := signs q1 XOR 1\<rparr> else q1)
      in q2\<lparr>metadata := metadata q2 + 1\<rparr>)"

definition divide_d7 :: "cell \<Rightarrow> int \<Rightarrow> bool \<Rightarrow> cell" where
  "divide_d7 q factor sign_flip =
     (let q1 = q\<lparr>cf := cf q + factor\<rparr>;
          q2 = (if sign_flip then q1\<lparr>signs := signs q1 XOR 8\<rparr> else q1)
      in q2\<lparr>metadata := metadata q2 + 1\<rparr>)"

definition relu_activation_d7 :: "cell \<Rightarrow> cell" where
  "relu_activation_d7 q =
     (if signs q AND 1 \<noteq> 0
      then q\<lparr>ca := 0, signs := signs q AND NOT 1, metadata := metadata q + 1\<rparr>
      else q)"

text \<open>Demo17, \<open>QuantumNumberV8.relu\<close> (lines 53-56).\<close>

definition relu_d17 :: "cell \<Rightarrow> cell" where
  "relu_d17 q = (if ca q < 0 then q\<lparr>ca := 0\<rparr> else q)"

section \<open>The layer of QuantumNumberV8Demo23.py\<close>

datatype py_error = KeyError | ZeroDivisionError | IndexError

type_synonym key = string

text \<open>
  Weights and biases are Python integers held in dictionaries; \<open>d[k]\<close> raises
  \<open>KeyError\<close> on a missing key, \<open>%\<close> raises \<open>ZeroDivisionError\<close> on a zero modulus.
\<close>

record layer23 =
  input_keys :: "key list"
  output_keys :: "key list"
  bases :: "key \<rightharpoonup> int"
  weights :: "key \<rightharpoonup> (key \<rightharpoonup> int)"
  biases :: "key \<rightharpoonup> int"

definition subscript :: "('k \<rightharpoonup> 'v) \<Rightarrow> 'k \<Rightarrow> py_error + 'v" where
  "subscript d k = (case d k of None \<Rightarrow> Inl KeyError | Some v \<Rightarrow> Inr v)"

definition get0 :: "(key \<rightharpoonup> int) \<Rightarrow> key \<Rightarrow> int" where
  "get0 d k = (case d k of None \<Rightarrow> 0 | Some v \<Rightarrow> v)"

text \<open>The inner loop of \<open>forward\<close> (lines 24-27), for one output key.\<close>

fun forward_inner_d23 :: "layer23 \<Rightarrow> (key \<rightharpoonup> int) \<Rightarrow> key \<Rightarrow> int \<Rightarrow> key list \<Rightarrow> py_error + int" where
  "forward_inner_d23 L input_qn out_k tot [] = Inr tot"
| "forward_inner_d23 L input_qn out_k tot (in_k # ks) =
     (case subscript (weights L) out_k of Inl err \<Rightarrow> Inl err | Inr wd \<Rightarrow>
      case subscript wd in_k of Inl err \<Rightarrow> Inl err | Inr w \<Rightarrow>
      case subscript input_qn in_k of Inl err \<Rightarrow> Inl err | Inr v \<Rightarrow>
        forward_inner_d23 L input_qn out_k (tot + w * v) ks)"

fun forward_outer_d23 :: "layer23 \<Rightarrow> (key \<rightharpoonup> int) \<Rightarrow> (key \<rightharpoonup> int) \<Rightarrow> key list \<Rightarrow> py_error + (key \<rightharpoonup> int)" where
  "forward_outer_d23 L input_qn output_qn [] = Inr output_qn"
| "forward_outer_d23 L input_qn output_qn (out_k # ks) =
     (case subscript (biases L) out_k of Inl err \<Rightarrow> Inl err | Inr b \<Rightarrow>
      case forward_inner_d23 L input_qn out_k b (input_keys L) of Inl err \<Rightarrow> Inl err | Inr tot \<Rightarrow>
      case subscript (bases L) out_k of Inl err \<Rightarrow> Inl err | Inr base \<Rightarrow>
        if base = 0 then Inl ZeroDivisionError
        else forward_outer_d23 L input_qn (output_qn(out_k \<mapsto> tot mod base)) ks)"

definition forward_d23 :: "layer23 \<Rightarrow> (key \<rightharpoonup> int) \<Rightarrow> py_error + (key \<rightharpoonup> int)" where
  "forward_d23 L input_qn = forward_outer_d23 L input_qn Map.empty (output_keys L)"

text \<open>
  \<open>backward\<close> (lines 33-46) writes the layer.  An exception leaves the layer as it is
  at that moment, so the error carries the layer with it.
\<close>

fun errors_d23 :: "(key \<rightharpoonup> int) \<Rightarrow> (key \<rightharpoonup> int) \<Rightarrow> (key \<rightharpoonup> int) \<Rightarrow> key list \<Rightarrow> py_error + (key \<rightharpoonup> int)" where
  "errors_d23 target_qn output_qn errors [] = Inr errors"
| "errors_d23 target_qn output_qn errors (k # ks) =
     (case subscript target_qn k of Inl err \<Rightarrow> Inl err | Inr t \<Rightarrow>
      case subscript output_qn k of Inl err \<Rightarrow> Inl err | Inr y \<Rightarrow>
        errors_d23 target_qn output_qn (errors(k \<mapsto> t - y)) ks)"

fun update_weights_d23 :: "layer23 \<Rightarrow> (key \<rightharpoonup> int) \<Rightarrow> (key \<rightharpoonup> int) \<Rightarrow> int \<Rightarrow> key \<Rightarrow> key list \<Rightarrow> py_error \<times> layer23 + layer23" where
  "update_weights_d23 L input_qn errors learning_rate out_k [] = Inr L"
| "update_weights_d23 L input_qn errors learning_rate out_k (in_k # ks) =
     (case subscript (weights L) out_k of Inl err \<Rightarrow> Inl (err, L) | Inr wd \<Rightarrow>
      case subscript wd in_k of Inl err \<Rightarrow> Inl (err, L) | Inr w \<Rightarrow>
      case subscript errors out_k of Inl err \<Rightarrow> Inl (err, L) | Inr e \<Rightarrow>
      case subscript input_qn in_k of Inl err \<Rightarrow> Inl (err, L) | Inr v \<Rightarrow>
        update_weights_d23
          (L\<lparr>weights := (weights L)(out_k \<mapsto> wd(in_k \<mapsto> w + learning_rate * e * v))\<rparr>)
          input_qn errors learning_rate out_k ks)"

fun update_d23 :: "layer23 \<Rightarrow> (key \<rightharpoonup> int) \<Rightarrow> (key \<rightharpoonup> int) \<Rightarrow> int \<Rightarrow> key list \<Rightarrow> py_error \<times> layer23 + layer23" where
  "update_d23 L input_qn errors learning_rate [] = Inr L"
| "update_d23 L input_qn errors learning_rate (out_k # ks) =
     (case subscript (biases L) out_k of Inl err \<Rightarrow> Inl (err, L) | Inr b \<Rightarrow>
      case subscript errors out_k of Inl err \<Rightarrow> Inl (err, L) | Inr e \<Rightarrow>
      case update_weights_d23 (L\<lparr>biases := (biases L)(out_k \<mapsto> b + learning_rate * e)\<rparr>)
             input_qn errors learning_rate out_k (input_keys L) of
        Inl bad \<Rightarrow> Inl bad
      | Inr L1 \<Rightarrow> update_d23 L1 input_qn errors learning_rate ks)"

definition backward_d23 :: "layer23 \<Rightarrow> (key \<rightharpoonup> int) \<Rightarrow> (key \<rightharpoonup> int) \<Rightarrow> (key \<rightharpoonup> int) \<Rightarrow> int \<Rightarrow> py_error \<times> layer23 + layer23" where
  "backward_d23 L input_qn target_qn output_qn learning_rate =
     (case errors_d23 target_qn output_qn Map.empty (output_keys L) of
        Inl err \<Rightarrow> Inl (err, L)
      | Inr errors \<Rightarrow> update_d23 L input_qn errors learning_rate (output_keys L))"

section \<open>The digit numbers and the layer of QuantumNumberV8Demo24.py\<close>

text \<open>
  \<open>QuantumNumber\<close>: a list of digits, least significant first, a base and a sign.  The
  numbers of a layer are held by value in its dictionaries, each under one key only.
\<close>

record qnum24 =
  digits24 :: "int list"
  base24 :: int
  sign24 :: int

text \<open>\<open>to_int\<close> (lines 19-23): Horner's rule from the last digit down.\<close>

definition digits_value :: "int \<Rightarrow> int list \<Rightarrow> int" where
  "digits_value b ds = foldr (\<lambda>d val. val * b + d) ds 0"

definition to_int :: "qnum24 \<Rightarrow> int" where
  "to_int q = digits_value (base24 q) (digits24 q) * sign24 q"

text \<open>\<open>_normalize\<close> (lines 11-17): pop zeros from the end while more than one digit is
  left; a lone zero gets the sign 1.\<close>

fun pop_zeros_rev :: "int list \<Rightarrow> int list" where
  "pop_zeros_rev [] = []"
| "pop_zeros_rev (d # ds) = (if ds \<noteq> [] \<and> d = 0 then pop_zeros_rev ds else d # ds)"

definition normalize_d24 :: "qnum24 \<Rightarrow> qnum24" where
  "normalize_d24 q =
     (let ds = rev (pop_zeros_rev (rev (digits24 q)))
      in q\<lparr>digits24 := ds, sign24 := (if ds = [0] then 1 else sign24 q)\<rparr>)"

text \<open>\<open>QuantumNumber([], base)\<close>, as \<open>forward\<close> builds its results.\<close>

definition empty_qnum24 :: "int \<Rightarrow> qnum24" where
  "empty_qnum24 b = normalize_d24 \<lparr>digits24 = [], base24 = b, sign24 = 1\<rparr>"

text \<open>
  The loop of \<open>add\<close> (lines 38-40).  With base 1 it never ends, which is the value
  \<open>None\<close>; with base 0 the first \<open>%\<close> raises.
\<close>

partial_function (option) digits_loop :: "int \<Rightarrow> int \<Rightarrow> int list \<Rightarrow> (py_error + int list) option" where
  "digits_loop b abs_val ds =
     (if abs_val > 0
      then (if b = 0 then Some (Inl ZeroDivisionError)
            else digits_loop b (abs_val div b) (ds @ [abs_val mod b]))
      else Some (Inr ds))"

definition add_d24 :: "qnum24 \<Rightarrow> int \<Rightarrow> (py_error + qnum24) option" where
  "add_d24 q v =
     (if v = 0 then Some (Inr q)
      else
        (let new_val = to_int q + v;
             sgn1 = (if new_val \<ge> 0 then 1 else - 1);
             abs_val = \<bar>new_val\<bar>
         in if abs_val = 0
            then Some (Inr (normalize_d24 (q\<lparr>digits24 := [0], sign24 := 1\<rparr>)))
            else (case digits_loop (base24 q) abs_val [] of
                    None \<Rightarrow> None
                  | Some (Inl err) \<Rightarrow> Some (Inl err)
                  | Some (Inr ds) \<Rightarrow> Some (Inr (normalize_d24 (q\<lparr>digits24 := ds, sign24 := sgn1\<rparr>))))))"

record layer24 =
  base_d24 :: int
  input_keys24 :: "key list"
  output_keys24 :: "key list"
  weights24 :: "key \<rightharpoonup> (key \<rightharpoonup> qnum24)"
  biases24 :: "key \<rightharpoonup> qnum24"

text \<open>\<open>forward\<close> (lines 57-66).\<close>

fun forward_inner_d24 :: "layer24 \<Rightarrow> (key \<rightharpoonup> int) \<Rightarrow> key \<Rightarrow> int \<Rightarrow> key list \<Rightarrow> py_error + int" where
  "forward_inner_d24 L inp out_k tot [] = Inr tot"
| "forward_inner_d24 L inp out_k tot (in_k # ks) =
     (case subscript (weights24 L) out_k of Inl err \<Rightarrow> Inl err | Inr wd \<Rightarrow>
      case subscript wd in_k of Inl err \<Rightarrow> Inl err | Inr w \<Rightarrow>
        forward_inner_d24 L inp out_k (tot + to_int w * get0 inp in_k) ks)"

fun forward_outer_d24 :: "layer24 \<Rightarrow> (key \<rightharpoonup> int) \<Rightarrow> (key \<rightharpoonup> qnum24) \<Rightarrow> key list
    \<Rightarrow> (py_error + (key \<rightharpoonup> qnum24)) option" where
  "forward_outer_d24 L inp outp [] = Some (Inr outp)"
| "forward_outer_d24 L inp outp (out_k # ks) =
     (case subscript (biases24 L) out_k of Inl err \<Rightarrow> Some (Inl err) | Inr b \<Rightarrow>
      case forward_inner_d24 L inp out_k (to_int b) (input_keys24 L) of
        Inl err \<Rightarrow> Some (Inl err)
      | Inr tot \<Rightarrow>
          (case add_d24 (empty_qnum24 (base_d24 L)) tot of
             None \<Rightarrow> None
           | Some (Inl err) \<Rightarrow> Some (Inl err)
           | Some (Inr q) \<Rightarrow> forward_outer_d24 L inp (outp(out_k \<mapsto> q)) ks))"

definition forward_d24 :: "layer24 \<Rightarrow> (key \<rightharpoonup> int) \<Rightarrow> (py_error + (key \<rightharpoonup> qnum24)) option" where
  "forward_d24 L inp = forward_outer_d24 L inp Map.empty (output_keys24 L)"





section \<open>The layer of QuantumNumberV8Demo28.py\<close>

text \<open>
  \<open>QuantumLayer\<close> holds two dictionaries of cells, \<open>weights\<close> (output key to input key to
  cell) and \<open>biases\<close> (output key to cell).  A dictionary is iterated in insertion order:
  an association list, looked up with \<open>map_of\<close>.  \<open>input_vector.get(i, 0)\<close> reads a
  missing key as 0.
\<close>

record layer28 =
  weights28 :: "(key \<times> (key \<times> addr) list) list"
  biases28 :: "(key \<times> addr) list"

text \<open>The inner loop of \<open>forward\<close> (lines 99-104).\<close>

fun forward_weights_d28 :: "heap \<Rightarrow> (key \<rightharpoonup> int) \<Rightarrow> addr \<Rightarrow> (key \<times> addr) list \<Rightarrow> heap" where
  "forward_weights_d28 h input_vector sum_qnum [] = h"
| "forward_weights_d28 h input_vector sum_qnum ((i, qnum) # rest) =
     (let (h1, tmp) = alloc h new_cell;
          q = h1 ! qnum;
          h2 = h1[tmp := (h1 ! tmp)\<lparr>ca := ca q, cb := cb q, cc := cc q,
                                     cd := cd q, ce := ce q, cf := cf q\<rparr>];
          h3 = scale_by_int_d28 h2 tmp (get0 input_vector i);
          h4 = add_d28 h3 sum_qnum tmp
      in forward_weights_d28 h4 input_vector sum_qnum rest)"

text \<open>The outer loop of \<open>forward\<close> (lines 97-106); an error carries the store.\<close>

fun forward_outputs_d28 :: "heap \<Rightarrow> layer28 \<Rightarrow> (key \<rightharpoonup> int) \<Rightarrow> (key \<rightharpoonup> addr)
    \<Rightarrow> (key \<times> (key \<times> addr) list) list \<Rightarrow> py_error \<times> heap + heap \<times> (key \<rightharpoonup> addr)" where
  "forward_outputs_d28 h L input_vector output [] = Inr (h, output)"
| "forward_outputs_d28 h L input_vector output ((out_k, weight_dict) # rest) =
     (let (h1, sum_qnum) = alloc h new_cell;
          h2 = forward_weights_d28 h1 input_vector sum_qnum weight_dict
      in case map_of (biases28 L) out_k of
           None \<Rightarrow> Inl (KeyError, h2)
         | Some b \<Rightarrow>
             forward_outputs_d28 (add_d28 h2 sum_qnum b) L input_vector
               (output(out_k \<mapsto> sum_qnum)) rest)"

definition forward_d28 :: "heap \<Rightarrow> layer28 \<Rightarrow> (key \<rightharpoonup> int) \<Rightarrow> py_error \<times> heap + heap \<times> (key \<rightharpoonup> addr)" where
  "forward_d28 h L input_vector = forward_outputs_d28 h L input_vector Map.empty (weights28 L)"






section \<open>The cell of QuantumNumberV8Demo28.py with fractional coefficients\<close>







































section \<open>Properties of \<open>add\<close> and \<open>scale_by_int\<close>\<close>

declare add_d28.simps [simp del]

lemma add_d28_unfold:
  assumes "self < length h" "other < length h"
  shows "add_d28 h self other =
     (if overflows (h ! self) (h ! other) then
        (case left (h ! self) of
           Some l \<Rightarrow> add_d28 (h[self := cell_add (h ! self) (h ! other)]
                        @ [cell_carry (h ! self) (h ! other)]) l (length h)
         | None \<Rightarrow> h[self := (cell_add (h ! self) (h ! other))\<lparr>left := Some (length h)\<rparr>]
                        @ [cell_carry (h ! self) (h ! other)])
      else h[self := cell_add (h ! self) (h ! other)] @ [cell_carry (h ! self) (h ! other)])"
proof -
  have l: "left (cell_add (h ! self) (h ! other)) = left (h ! self)"
    by (simp add: cell_add_def)
  show ?thesis
    using assms
    by (subst add_d28.simps)
      (simp add: alloc_def add_loop_closed nth_append l list_update_append split: option.split)
qed

definition digit :: "int \<Rightarrow> int" where
  "digit v = (if v > 10 then v mod 10 else v)"

definition quot :: "int \<Rightarrow> int" where
  "quot v = (if v > 10 then v div 10 else 0)"

definition cell_scale :: "cell \<Rightarrow> int \<Rightarrow> cell" where
  "cell_scale s k = s\<lparr>ca := digit (ca s * k), cb := digit (cb s * k), cc := digit (cc s * k),
     cd := digit (cd s * k), ce := digit (ce s * k), cf := digit (cf s * k)\<rparr>"

definition cell_scale_carry :: "cell \<Rightarrow> int \<Rightarrow> cell" where
  "cell_scale_carry s k = new_cell\<lparr>ca := quot (ca s * k), cb := quot (cb s * k),
     cc := quot (cc s * k), cd := quot (cd s * k), ce := quot (ce s * k),
     cf := quot (cf s * k)\<rparr>"

definition scale_overflows :: "cell \<Rightarrow> int \<Rightarrow> bool" where
  "scale_overflows s k \<longleftrightarrow> ca s * k > 10 \<or> cb s * k > 10 \<or> cc s * k > 10 \<or>
     cd s * k > 10 \<or> ce s * k > 10 \<or> cf s * k > 10"

lemma scale_field_step:
  assumes "self < length h"
  shows "scale_field self k (length h) fld (h[self := s] @ [c], flag) =
     (h[self := setattr s fld (digit (getattr s fld * k))]
        @ [setattr c fld (quot (getattr s fld * k))],
      flag \<or> getattr s fld * k > 10)"
  using assms
  by (simp add: scale_field_def nth_append list_update_append Let_def digit_def quot_def)

lemma scale_loop_closed:
  assumes "self < length h"
  shows "scale_loop (h @ [new_cell]) self k (length h) =
         (h[self := cell_scale (h ! self) k] @ [cell_scale_carry (h ! self) k],
          scale_overflows (h ! self) k)"
proof -
  have start: "h @ [new_cell] = h[self := h ! self] @ [new_cell]"
    by simp
  show ?thesis
    unfolding scale_loop_def field_names_def
    apply (subst start)
    apply (simp only: fold.simps o_apply id_apply scale_field_step[OF assms])
    apply (simp add: cell_scale_def cell_scale_carry_def scale_overflows_def)
    done
qed

lemma scale_by_int_d28_unfold:
  assumes "self < length h"
  shows "scale_by_int_d28 h self k =
     (if scale_overflows (h ! self) k then
        (case left (h ! self) of
           Some l \<Rightarrow> add_d28 (h[self := cell_scale (h ! self) k]
                        @ [cell_scale_carry (h ! self) k]) l (length h)
         | None \<Rightarrow> h[self := (cell_scale (h ! self) k)\<lparr>left := Some (length h)\<rparr>]
                        @ [cell_scale_carry (h ! self) k])
      else h[self := cell_scale (h ! self) k] @ [cell_scale_carry (h ! self) k])"
proof -
  have l: "left (cell_scale (h ! self) k) = left (h ! self)"
    by (simp add: cell_scale_def)
  show ?thesis
    using assms
    by (simp add: scale_by_int_d28_def alloc_def scale_loop_closed nth_append l
        list_update_append split: option.split)
qed

lemma add_d28_induct [case_names step]:
  assumes "\<And>h self other.
     (\<And>l. self < length h \<Longrightarrow> other < length h \<Longrightarrow> overflows (h ! self) (h ! other) \<Longrightarrow>
        left (h ! self) = Some l \<Longrightarrow>
        P (h[self := cell_add (h ! self) (h ! other)] @ [cell_carry (h ! self) (h ! other)])
          l (length h))
     \<Longrightarrow> P h self other"
  shows "P h self other"
proof (induction h self other rule: add_d28.induct)
  case (1 h self other)
  show ?case
  proof (rule assms)
    fix l
    assume a: "self < length h" "other < length h" "overflows (h ! self) (h ! other)"
      "left (h ! self) = Some l"
    have l: "left (cell_add (h ! self) (h ! other)) = left (h ! self)"
      by (simp add: cell_add_def)
    show "P (h[self := cell_add (h ! self) (h ! other)] @ [cell_carry (h ! self) (h ! other)])
          l (length h)"
      using a
      by (intro "1.IH"[of "(h @ [new_cell], length h)" "h @ [new_cell]" "length h"
            "(h[self := cell_add (h ! self) (h ! other)] @ [cell_carry (h ! self) (h ! other)], True)"
            "h[self := cell_add (h ! self) (h ! other)] @ [cell_carry (h ! self) (h ! other)]"
            True l])
        (simp_all add: alloc_def add_loop_closed nth_append l)
  qed
qed

text \<open>What \<open>add\<close> never touches in a cell that was there before the call.\<close>

definition same_frame :: "cell \<Rightarrow> cell \<Rightarrow> bool" where
  "same_frame q q' \<longleftrightarrow> signs q' = signs q \<and> metadata q' = metadata q \<and>
     right q' = right q \<and> up q' = up q \<and> down q' = down q \<and> in_ptr q' = in_ptr q \<and>
     out q' = out q"

lemma same_frame_refl: "same_frame q q"
  by (simp add: same_frame_def)

lemma same_frame_trans: "same_frame q q' \<Longrightarrow> same_frame q' q'' \<Longrightarrow> same_frame q q''"
  by (simp add: same_frame_def)

lemma same_frame_cell_add: "same_frame q (cell_add q t)"
  by (simp add: same_frame_def cell_add_def)

lemma same_frame_left: "same_frame q (q'\<lparr>left := l\<rparr>) = same_frame q q'"
  by (simp add: same_frame_def)

lemma length_add_d28: "length h \<le> length (add_d28 h self other)"
proof (induction h self other rule: add_d28_induct)
  case (step h self other)
  show ?case
  proof (cases "self < length h \<and> other < length h")
    case False
    then show ?thesis by (subst add_d28.simps) auto
  next
    case True
    then show ?thesis
    proof (cases "overflows (h ! self) (h ! other)")
      case False
      with True show ?thesis by (simp add: add_d28_unfold)
    next
      case ov: True
      show ?thesis
      proof (cases "left (h ! self)")
        case None
        with True ov show ?thesis by (simp add: add_d28_unfold)
      next
        case (Some l)
        from step[of l] True ov Some show ?thesis by (simp add: add_d28_unfold)
      qed
    qed
  qed
qed

lemma add_d28_same_frame:
  "p < length h \<Longrightarrow> same_frame (h ! p) (add_d28 h self other ! p)"
proof (induction h self other rule: add_d28_induct)
  case (step h self other)
  show ?case
  proof (cases "self < length h \<and> other < length h")
    case False
    then show ?thesis by (subst add_d28.simps) (auto simp: same_frame_refl)
  next
    case True
    let ?h1 = "h[self := cell_add (h ! self) (h ! other)] @ [cell_carry (h ! self) (h ! other)]"
    have h1: "same_frame (h ! p) (?h1 ! p)"
      using step.prems True
      by (cases "p = self") (simp_all add: nth_append same_frame_cell_add same_frame_refl)
    show ?thesis
    proof (cases "overflows (h ! self) (h ! other)")
      case False
      with True h1 show ?thesis by (simp add: add_d28_unfold)
    next
      case ov: True
      show ?thesis
      proof (cases "left (h ! self)")
        case None
        with True ov h1 step.prems show ?thesis
          by (cases "p = self")
            (simp_all add: add_d28_unfold nth_append same_frame_left)
      next
        case (Some l)
        have "same_frame (?h1 ! p) (add_d28 ?h1 l (length h) ! p)"
          using step.IH[of l] True ov Some step.prems by simp
        with h1 show ?thesis
          using True ov Some by (simp add: add_d28_unfold same_frame_trans[OF h1])
      qed
    qed
  qed
qed

text \<open>
  The left-chain of a cell: the addresses met by following \<open>left\<close> from \<open>p\<close> until the link
  is \<open>None\<close>.  A chain that is a finite list has no cycle.  The mixed-radix reading of a
  field over a chain weighs the cell at position \<open>k\<close> with \<open>10 ^ k\<close>.
\<close>

fun chain :: "heap \<Rightarrow> addr \<Rightarrow> addr list \<Rightarrow> bool" where
  "chain h p [] = False"
| "chain h p [q] = (p = q \<and> p < length h \<and> left (h ! p) = None)"
| "chain h p (q # r # rs) = (p = q \<and> p < length h \<and> left (h ! p) = Some r \<and> chain h r (r # rs))"

fun recon :: "heap \<Rightarrow> field \<Rightarrow> addr list \<Rightarrow> int" where
  "recon h fld [] = 0"
| "recon h fld (p # ps) = getattr (h ! p) fld + 10 * recon h fld ps"

lemma chain_hd: "chain h p ps \<Longrightarrow> \<exists>rs. ps = p # rs"
  by (cases "(h, p, ps)" rule: chain.cases) auto

lemma chain_in_heap: "chain h p ps \<Longrightarrow> q \<in> set ps \<Longrightarrow> q < length h"
  by (induction h p ps rule: chain.induct) auto

lemma chain_unique: "chain h p ps \<Longrightarrow> chain h p qs \<Longrightarrow> ps = qs"
proof (induction h p ps arbitrary: qs rule: chain.induct)
  case (1 h p)
  then show ?case by simp
next
  case (2 h p q)
  then show ?case by (cases "(h, p, qs)" rule: chain.cases) auto
next
  case (3 h p q r rs)
  then show ?case by (cases "(h, p, qs)" rule: chain.cases) auto
qed

lemma chain_suffix: "chain h p (ps @ q # qs) \<Longrightarrow> chain h q (q # qs)"
proof (induction ps arbitrary: p)
  case Nil
  then show ?case using chain_hd by fastforce
next
  case (Cons x ps)
  then show ?case by (cases ps) auto
qed

lemma chain_hd_notin_tl:
  assumes "chain h p (p # rs)"
  shows "p \<notin> set rs"
proof
  assume "p \<in> set rs"
  then obtain us vs where rs: "rs = us @ p # vs"
    by (auto simp: in_set_conv_decomp)
  with assms have "chain h p ((p # us) @ p # vs)" by simp
  then have "chain h p (p # vs)" by (rule chain_suffix)
  with assms have "p # rs = p # vs" by (rule chain_unique)
  with rs show False by simp
qed

lemma chain_distinct: "chain h p ps \<Longrightarrow> distinct ps"
proof (induction h p ps rule: chain.induct)
  case (3 h p q r rs)
  then show ?case using chain_hd_notin_tl[of h q "r # rs"] by auto
qed auto

lemma chain_frame:
  assumes "chain h p ps" "\<And>q. q \<in> set ps \<Longrightarrow> q < length h' \<and> left (h' ! q) = left (h ! q)"
  shows "chain h' p ps"
  using assms by (induction h p ps rule: chain.induct) auto

lemma recon_frame:
  assumes "\<And>q. q \<in> set ps \<Longrightarrow> getattr (h' ! q) fld = getattr (h ! q) fld"
  shows "recon h' fld ps = recon h fld ps"
  using assms by (induction ps) auto

lemma getattr_cell_add: "getattr (cell_add s t) fld = kept (getattr s fld + getattr t fld)"
  by (cases fld) (simp_all add: cell_add_def)

lemma getattr_cell_carry: "getattr (cell_carry s t) fld = flagged (getattr s fld + getattr t fld)"
  by (cases fld) (simp_all add: cell_carry_def new_cell_def)

lemma getattr_left_update: "getattr (q\<lparr>left := l\<rparr>) fld = getattr q fld"
  by (cases fld) simp_all

lemma kept_flagged: "kept v + 10 * flagged v = v"
  by (simp add: kept_def flagged_def)

lemma not_overflows_kept: "\<not> overflows s t \<Longrightarrow> kept (getattr s fld + getattr t fld) = getattr s fld + getattr t fld"
  by (cases fld) (auto simp: overflows_def kept_def)

lemma not_overflows_flagged: "\<not> overflows s t \<Longrightarrow> flagged (getattr s fld + getattr t fld) = 0"
  by (cases fld) (auto simp: overflows_def flagged_def)

text \<open>A cell off the left-chain of \<open>self\<close> is not written by \<open>add\<close>.\<close>

lemma add_d28_frame:
  assumes "chain h x ps" "y < length h" "p < length h" "p \<notin> set ps"
  shows "add_d28 h x y ! p = h ! p"
  using assms
proof (induction ps arbitrary: h x y)
  case Nil
  then show ?case by simp
next
  case (Cons z rs)
  from chain_hd[OF Cons.prems(1)] have z: "z = x" by simp
  from chain_in_heap[OF Cons.prems(1), of z] z have x: "x < length h" by simp
  from Cons.prems z have px: "p \<noteq> x" by auto
  let ?h1 = "h[x := cell_add (h ! x) (h ! y)] @ [cell_carry (h ! x) (h ! y)]"
  have h1p: "?h1 ! p = h ! p"
    using px Cons.prems by (simp add: nth_append)
  show ?case
  proof (cases "overflows (h ! x) (h ! y)")
    case False
    with x Cons.prems h1p show ?thesis by (simp add: add_d28_unfold)
  next
    case ov: True
    show ?thesis
    proof (cases "left (h ! x)")
      case None
      with x ov Cons.prems px show ?thesis by (simp add: add_d28_unfold nth_append)
    next
      case (Some l)
      with Cons.prems z obtain rs' where rs: "rs = l # rs'" and cl: "chain h l rs"
        by (cases rs) auto
      have xrs: "x \<notin> set rs"
        using chain_hd_notin_tl Cons.prems(1) z by blast
      have "chain ?h1 l rs"
        using cl
      proof (rule chain_frame)
        fix q assume q: "q \<in> set rs"
        with xrs have "q \<noteq> x" by auto
        moreover from q cl have "q < length h" by (rule chain_in_heap[rotated])
        ultimately show "q < length ?h1 \<and> left (?h1 ! q) = left (h ! q)"
          by (simp add: nth_append)
      qed
      then have "add_d28 ?h1 l (length h) ! p = ?h1 ! p"
        using Cons.prems by (intro Cons.IH) auto
      with x ov Some Cons.prems h1p show ?thesis by (simp add: add_d28_unfold)
    qed
  qed
qed

text \<open>
  \<open>add\<close> keeps the mixed-radix reading exact: after the call the chain of \<open>x\<close> reads the
  old reading plus the operand's field, whatever the signs of the numbers, and whether
  or not the operand is itself a cell of the chain.
\<close>

lemma add_d28_recon:
  assumes "chain h x ps" "y < length h"
  shows "\<exists>ps'. chain (add_d28 h x y) x ps' \<and>
           recon (add_d28 h x y) fld ps' = recon h fld ps + getattr (h ! y) fld"
  using assms
proof (induction ps arbitrary: h x y)
  case Nil
  then show ?case by simp
next
  case (Cons z rs)
  from chain_hd[OF Cons.prems(1)] have z: "z = x" by simp
  from chain_in_heap[OF Cons.prems(1), of z] z have x: "x < length h" by simp
  let ?s = "cell_add (h ! x) (h ! y)" and ?c = "cell_carry (h ! x) (h ! y)"
  let ?h1 = "h[x := ?s] @ [?c]"
  have xrs: "x \<notin> set rs"
    using chain_hd_notin_tl Cons.prems(1) z by blast
  have rs_in: "\<And>q. q \<in> set rs \<Longrightarrow> q < length h"
    using chain_in_heap[OF Cons.prems(1)] by simp
  have ls: "left ?s = left (h ! x)" by (simp add: cell_add_def)
  have tail: "recon ?h1 fld rs = recon h fld rs"
  proof (rule recon_frame)
    fix q assume q: "q \<in> set rs"
    with xrs have "q \<noteq> x" by auto
    with rs_in[OF q] show "getattr (?h1 ! q) fld = getattr (h ! q) fld"
      by (simp add: nth_append)
  qed
  show ?case
  proof (cases "overflows (h ! x) (h ! y)")
    case False
    have "chain ?h1 x (x # rs)"
      using Cons.prems(1)[unfolded z]
    proof (rule chain_frame)
      fix q assume "q \<in> set (x # rs)"
      then have "q < length h" using x rs_in[of q] by auto
      with ls show "q < length ?h1 \<and> left (?h1 ! q) = left (h ! q)"
        by (cases "q = x") (simp_all add: nth_append)
    qed
    moreover have "recon ?h1 fld (x # rs) = recon h fld (x # rs) + getattr (h ! y) fld"
      using x tail False
      by (simp add: nth_append getattr_cell_add not_overflows_kept)
    moreover have "add_d28 h x y = ?h1"
      using x Cons.prems False by (simp add: add_d28_unfold)
    ultimately show ?thesis
      unfolding z by (intro exI[of _ "x # rs"]) simp
  next
    case ov: True
    show ?thesis
    proof (cases "left (h ! x)")
      case None
      with Cons.prems(1) z have rs: "rs = []" by (cases rs) auto
      let ?h2 = "h[x := ?s\<lparr>left := Some (length h)\<rparr>] @ [?c]"
      have "chain ?h2 x [x, length h]"
        using x by (simp add: nth_append cell_carry_def new_cell_def)
      moreover have "recon ?h2 fld [x, length h] = recon h fld [x] + getattr (h ! y) fld"
        using x kept_flagged[of "getattr (h ! x) fld + getattr (h ! y) fld"]
        by (simp add: nth_append getattr_cell_add getattr_cell_carry getattr_left_update)
      moreover have "add_d28 h x y = ?h2"
        using x Cons.prems ov None by (simp add: add_d28_unfold)
      ultimately show ?thesis
        unfolding z rs by (intro exI[of _ "[x, length h]"]) simp
    next
      case (Some l)
      with Cons.prems z obtain rs' where rs: "rs = l # rs'" and cl: "chain h l rs"
        by (cases rs) auto
      have c1: "chain ?h1 l rs"
        using cl
      proof (rule chain_frame)
        fix q assume q: "q \<in> set rs"
        with xrs have "q \<noteq> x" by auto
        with rs_in[OF q] show "q < length ?h1 \<and> left (?h1 ! q) = left (h ! q)"
          by (simp add: nth_append)
      qed
      let ?h2 = "add_d28 ?h1 l (length h)"
      from Cons.IH[OF c1, of "length h"] obtain ps' where
        c2: "chain ?h2 l ps'" and
        r2: "recon ?h2 fld ps' = recon ?h1 fld rs + getattr (?h1 ! length h) fld"
        by auto
      have x2: "?h2 ! x = ?h1 ! x"
        using c1 xrs x by (intro add_d28_frame[where ps = rs]) auto
      have len: "x < length ?h2"
        using length_add_d28[of ?h1 l "length h"] x by simp
      obtain ps'' where ps': "ps' = l # ps''" using chain_hd[OF c2] by auto
      have "chain ?h2 x (x # ps')"
        using c2 len x2 x Some ls unfolding ps' by (simp add: nth_append)
      moreover have "recon ?h2 fld (x # ps') = recon h fld (x # rs) + getattr (h ! y) fld"
        using x2 x r2 tail kept_flagged[of "getattr (h ! x) fld + getattr (h ! y) fld"]
        by (simp add: nth_append getattr_cell_add getattr_cell_carry)
      moreover have "add_d28 h x y = ?h2"
        using x Cons.prems ov Some by (simp add: add_d28_unfold)
      ultimately show ?thesis
        unfolding z by (intro exI[of _ "x # ps'"]) simp
    qed
  qed
qed

lemma getattr_cell_scale: "getattr (cell_scale s k) fld = digit (getattr s fld * k)"
  by (cases fld) (simp_all add: cell_scale_def)

lemma getattr_cell_scale_carry: "getattr (cell_scale_carry s k) fld = quot (getattr s fld * k)"
  by (cases fld) (simp_all add: cell_scale_carry_def new_cell_def)

lemma digit_quot: "digit v + 10 * quot v = v"
  by (simp add: digit_def quot_def)

lemma not_scale_overflows_digit: "\<not> scale_overflows s k \<Longrightarrow> digit (getattr s fld * k) = getattr s fld * k"
  by (cases fld) (auto simp: scale_overflows_def digit_def)

text \<open>
  \<open>scale_by_int\<close> multiplies the fields of \<open>self\<close> only: the cells further up the chain
  keep their numbers and take the carry.
\<close>

lemma scale_by_int_d28_recon:
  assumes "chain h x ps"
  shows "\<exists>ps'. chain (scale_by_int_d28 h x k) x ps' \<and>
           recon (scale_by_int_d28 h x k) fld ps' = getattr (h ! x) fld * k + 10 * recon h fld (tl ps)"
proof -
  from chain_hd[OF assms] obtain rs where ps: "ps = x # rs" by auto
  from chain_in_heap[OF assms, of x] ps have x: "x < length h" by simp
  let ?s = "cell_scale (h ! x) k" and ?c = "cell_scale_carry (h ! x) k"
  let ?h1 = "h[x := ?s] @ [?c]"
  have xrs: "x \<notin> set rs"
    using chain_hd_notin_tl assms ps by blast
  have rs_in: "\<And>q. q \<in> set rs \<Longrightarrow> q < length h"
    using chain_in_heap[OF assms] ps by simp
  have ls: "left ?s = left (h ! x)" by (simp add: cell_scale_def)
  have tail: "recon ?h1 fld rs = recon h fld rs"
  proof (rule recon_frame)
    fix q assume q: "q \<in> set rs"
    with xrs have "q \<noteq> x" by auto
    with rs_in[OF q] show "getattr (?h1 ! q) fld = getattr (h ! q) fld"
      by (simp add: nth_append)
  qed
  show ?thesis
  proof (cases "scale_overflows (h ! x) k")
    case False
    have "chain ?h1 x (x # rs)"
      using assms[unfolded ps]
    proof (rule chain_frame)
      fix q assume "q \<in> set (x # rs)"
      then have "q < length h" using x rs_in[of q] by auto
      with ls show "q < length ?h1 \<and> left (?h1 ! q) = left (h ! q)"
        by (cases "q = x") (simp_all add: nth_append)
    qed
    moreover have "recon ?h1 fld (x # rs) = getattr (h ! x) fld * k + 10 * recon h fld rs"
      using x tail False
      by (simp add: nth_append getattr_cell_scale not_scale_overflows_digit)
    moreover have "scale_by_int_d28 h x k = ?h1"
      using x False by (simp add: scale_by_int_d28_unfold)
    ultimately show ?thesis
      unfolding ps by (intro exI[of _ "x # rs"]) simp
  next
    case ov: True
    show ?thesis
    proof (cases "left (h ! x)")
      case None
      with assms ps have rs: "rs = []" by (cases rs) auto
      let ?h2 = "h[x := ?s\<lparr>left := Some (length h)\<rparr>] @ [?c]"
      have "chain ?h2 x [x, length h]"
        using x by (simp add: nth_append cell_scale_carry_def new_cell_def)
      moreover have "recon ?h2 fld [x, length h] = getattr (h ! x) fld * k"
        using x digit_quot[of "getattr (h ! x) fld * k"]
        by (simp add: nth_append getattr_cell_scale getattr_cell_scale_carry getattr_left_update)
      moreover have "scale_by_int_d28 h x k = ?h2"
        using x ov None by (simp add: scale_by_int_d28_unfold)
      ultimately show ?thesis
        unfolding ps rs by (intro exI[of _ "[x, length h]"]) simp
    next
      case (Some l)
      with assms ps obtain rs' where rs: "rs = l # rs'" and cl: "chain h l rs"
        by (cases rs) auto
      have c1: "chain ?h1 l rs"
        using cl
      proof (rule chain_frame)
        fix q assume q: "q \<in> set rs"
        with xrs have "q \<noteq> x" by auto
        with rs_in[OF q] show "q < length ?h1 \<and> left (?h1 ! q) = left (h ! q)"
          by (simp add: nth_append)
      qed
      let ?h2 = "add_d28 ?h1 l (length h)"
      from add_d28_recon[OF c1, of "length h" fld] obtain ps' where
        c2: "chain ?h2 l ps'" and
        r2: "recon ?h2 fld ps' = recon ?h1 fld rs + getattr (?h1 ! length h) fld"
        by auto
      have x2: "?h2 ! x = ?h1 ! x"
        using c1 xrs x by (intro add_d28_frame[where ps = rs]) auto
      have len: "x < length ?h2"
        using length_add_d28[of ?h1 l "length h"] x by simp
      obtain ps'' where ps': "ps' = l # ps''" using chain_hd[OF c2] by auto
      have "chain ?h2 x (x # ps')"
        using c2 len x2 x Some ls unfolding ps' by (simp add: nth_append)
      moreover have "recon ?h2 fld (x # ps') = getattr (h ! x) fld * k + 10 * recon h fld rs"
        using x2 x r2 tail digit_quot[of "getattr (h ! x) fld * k"]
        by (simp add: nth_append getattr_cell_scale getattr_cell_scale_carry)
      moreover have "scale_by_int_d28 h x k = ?h2"
        using x ov Some by (simp add: scale_by_int_d28_unfold)
      ultimately show ?thesis
        unfolding ps by (intro exI[of _ "x # ps'"]) simp
    qed
  qed
qed

text \<open>Cells with chosen coefficient \<open>a\<close> and left link, for the examples.\<close>

definition cell_a :: "int \<Rightarrow> addr option \<Rightarrow> cell" where
  "cell_a v l = new_cell\<lparr>ca := v, left := l\<rparr>"

lemma scale_by_int_d28_same_frame:
  assumes "p < length h"
  shows "same_frame (h ! p) (scale_by_int_d28 h self k ! p)"
proof (cases "self < length h")
  case False
  then show ?thesis by (simp add: scale_by_int_d28_def same_frame_refl)
next
  case True
  let ?h1 = "h[self := cell_scale (h ! self) k] @ [cell_scale_carry (h ! self) k]"
  have sc: "same_frame (h ! self) (cell_scale (h ! self) k)"
    by (simp add: same_frame_def cell_scale_def)
  have h1: "same_frame (h ! p) (?h1 ! p)"
    using assms True sc by (cases "p = self") (simp_all add: nth_append same_frame_refl)
  show ?thesis
  proof (cases "scale_overflows (h ! self) k")
    case False
    with True h1 show ?thesis by (simp add: scale_by_int_d28_unfold)
  next
    case ov: True
    show ?thesis
    proof (cases "left (h ! self)")
      case None
      with True ov h1 assms show ?thesis
        by (cases "p = self") (simp_all add: scale_by_int_d28_unfold nth_append same_frame_left)
    next
      case (Some l)
      have "same_frame (?h1 ! p) (add_d28 ?h1 l (length h) ! p)"
        using assms by (intro add_d28_same_frame) simp
      with h1 have "same_frame (h ! p) (add_d28 ?h1 l (length h) ! p)"
        by (rule same_frame_trans)
      with True ov Some show ?thesis by (simp add: scale_by_int_d28_unfold)
    qed
  qed
qed

lemma overflows_iff: "overflows s t \<longleftrightarrow> (\<exists>fld. getattr s fld + getattr t fld > 10)"
proof
  assume "overflows s t"
  then consider "getattr s FA + getattr t FA > 10" | "getattr s FB + getattr t FB > 10"
    | "getattr s FC + getattr t FC > 10" | "getattr s FD + getattr t FD > 10"
    | "getattr s FE + getattr t FE > 10" | "getattr s FF + getattr t FF > 10"
    by (auto simp: overflows_def)
  then show "\<exists>fld. getattr s fld + getattr t fld > 10" by cases blast+
next
  assume "\<exists>fld. getattr s fld + getattr t fld > 10"
  then obtain fld where "getattr s fld + getattr t fld > 10" ..
  then show "overflows s t" by (cases fld) (simp_all add: overflows_def)
qed

lemma scale_overflows_iff: "scale_overflows s k \<longleftrightarrow> (\<exists>fld. getattr s fld * k > 10)"
proof
  assume "scale_overflows s k"
  then consider "getattr s FA * k > 10" | "getattr s FB * k > 10"
    | "getattr s FC * k > 10" | "getattr s FD * k > 10"
    | "getattr s FE * k > 10" | "getattr s FF * k > 10"
    by (auto simp: scale_overflows_def)
  then show "\<exists>fld. getattr s fld * k > 10" by cases blast+
next
  assume "\<exists>fld. getattr s fld * k > 10"
  then obtain fld where "getattr s fld * k > 10" ..
  then show "scale_overflows s k" by (cases fld) (simp_all add: scale_overflows_def)
qed

lemma cell_add_no_overflow:
  assumes "\<not> overflows s t"
  shows "cell_add s t = s\<lparr>ca := ca s + ca t, cb := cb s + cb t, cc := cc s + cc t,
     cd := cd s + cd t, ce := ce s + ce t, cf := cf s + cf t\<rparr>"
  using assms by (simp add: cell_add_def overflows_def kept_def)

lemma cell_carry_no_overflow: "\<not> overflows s t \<Longrightarrow> cell_carry s t = new_cell"
  by (simp add: cell_carry_def overflows_def flagged_def new_cell_def)

lemma cell_scale_one:
  assumes "\<not> scale_overflows s 1"
  shows "cell_scale s 1 = s" "cell_scale_carry s 1 = new_cell"
  using assms
  by (simp_all add: cell_scale_def cell_scale_carry_def scale_overflows_def digit_def quot_def new_cell_def)

lemma add_d28_no_left:
  assumes "self < length h" "other < length h" "left (h ! self) = None"
  shows "add_d28 h self other =
     h[self := (cell_add (h ! self) (h ! other))
          \<lparr>left := if overflows (h ! self) (h ! other) then Some (length h) else None\<rparr>]
       @ [cell_carry (h ! self) (h ! other)]"
proof -
  have "(cell_add (h ! self) (h ! other))\<lparr>left := None\<rparr> = cell_add (h ! self) (h ! other)"
    using assms(3) by (simp add: cell_add_def)
  with assms show ?thesis by (simp add: add_d28_unfold)
qed

lemma scale_by_int_d28_no_left:
  assumes "self < length h" "left (h ! self) = None"
  shows "scale_by_int_d28 h self k =
     h[self := (cell_scale (h ! self) k)
          \<lparr>left := if scale_overflows (h ! self) k then Some (length h) else None\<rparr>]
       @ [cell_scale_carry (h ! self) k]"
proof -
  have "(cell_scale (h ! self) k)\<lparr>left := None\<rparr> = cell_scale (h ! self) k"
    using assms(2) by (simp add: cell_scale_def)
  with assms show ?thesis by (simp add: scale_by_int_d28_unfold)
qed

text \<open>
  What \<open>add\<close> does to a cell with a finite left-chain: the cell gets the kept sums, its
  chain stays finite and grows by fresh cells only.
\<close>

lemma add_d28_chain:
  assumes "chain h x ps" "y < length h"
  shows "\<exists>ps'. chain (add_d28 h x y) x ps' \<and> set ps' \<subseteq> set ps \<union> {p. length h \<le> p}
           \<and> add_d28 h x y ! x
               = (cell_add (h ! x) (h ! y))\<lparr>left := left (add_d28 h x y ! x)\<rparr>"
  using assms
proof (induction ps arbitrary: h x y)
  case Nil
  then show ?case by simp
next
  case (Cons z rs)
  from chain_hd[OF Cons.prems(1)] have z: "z = x" by simp
  from chain_in_heap[OF Cons.prems(1), of z] z have x: "x < length h" by simp
  let ?s = "cell_add (h ! x) (h ! y)" and ?c = "cell_carry (h ! x) (h ! y)"
  let ?h1 = "h[x := ?s] @ [?c]"
  have xrs: "x \<notin> set rs"
    using chain_hd_notin_tl Cons.prems(1) z by blast
  have rs_in: "\<And>q. q \<in> set rs \<Longrightarrow> q < length h"
    using chain_in_heap[OF Cons.prems(1)] by simp
  have ls: "left ?s = left (h ! x)" by (simp add: cell_add_def)
  show ?case
  proof (cases "overflows (h ! x) (h ! y)")
    case False
    have "chain ?h1 x (x # rs)"
      using Cons.prems(1)[unfolded z]
    proof (rule chain_frame)
      fix q assume "q \<in> set (x # rs)"
      then have "q < length h" using x rs_in[of q] by auto
      with ls show "q < length ?h1 \<and> left (?h1 ! q) = left (h ! q)"
        by (cases "q = x") (simp_all add: nth_append)
    qed
    moreover have "add_d28 h x y = ?h1"
      using x Cons.prems False by (simp add: add_d28_unfold)
    moreover have "?h1 ! x = ?s\<lparr>left := left (?h1 ! x)\<rparr>"
      using x by (simp add: nth_append)
    ultimately show ?thesis
      unfolding z by (intro exI[of _ "x # rs"]) auto
  next
    case ov: True
    show ?thesis
    proof (cases "left (h ! x)")
      case None
      with Cons.prems(1) z have rs: "rs = []" by (cases rs) auto
      let ?h2 = "h[x := ?s\<lparr>left := Some (length h)\<rparr>] @ [?c]"
      have "chain ?h2 x [x, length h]"
        using x by (simp add: nth_append cell_carry_def new_cell_def)
      moreover have "add_d28 h x y = ?h2"
        using x Cons.prems ov None by (simp add: add_d28_unfold)
      moreover have "?h2 ! x = ?s\<lparr>left := left (?h2 ! x)\<rparr>"
        using x by (simp add: nth_append)
      ultimately show ?thesis
        unfolding z rs by (intro exI[of _ "[x, length h]"]) auto
    next
      case (Some l)
      with Cons.prems z obtain rs' where rs: "rs = l # rs'" and cl: "chain h l rs"
        by (cases rs) auto
      have c1: "chain ?h1 l rs"
        using cl
      proof (rule chain_frame)
        fix q assume q: "q \<in> set rs"
        with xrs have "q \<noteq> x" by auto
        with rs_in[OF q] show "q < length ?h1 \<and> left (?h1 ! q) = left (h ! q)"
          by (simp add: nth_append)
      qed
      let ?h2 = "add_d28 ?h1 l (length h)"
      from Cons.IH[OF c1, of "length h"] obtain ps' where
        c2: "chain ?h2 l ps'" and sub: "set ps' \<subseteq> set rs \<union> {p. length ?h1 \<le> p}"
        by auto
      have x2: "?h2 ! x = ?h1 ! x"
        using c1 xrs x by (intro add_d28_frame[where ps = rs]) auto
      have len: "x < length ?h2"
        using length_add_d28[of ?h1 l "length h"] x by simp
      obtain ps'' where ps': "ps' = l # ps''" using chain_hd[OF c2] by auto
      have "chain ?h2 x (x # ps')"
        using c2 len x2 x Some ls unfolding ps' by (simp add: nth_append)
      moreover have "add_d28 h x y = ?h2"
        using x Cons.prems ov Some by (simp add: add_d28_unfold)
      moreover have "?h2 ! x = ?s\<lparr>left := left (?h2 ! x)\<rparr>"
        using x by (simp add: x2 nth_append)
      moreover have "set (x # ps') \<subseteq> set (x # rs) \<union> {p. length h \<le> p}"
        using sub by auto
      ultimately show ?thesis
        unfolding z by (intro exI[of _ "x # ps'"]) simp
    qed
  qed
qed

lemma bit_toggle_two:
  fixes s :: int
  assumes "m \<noteq> n"
  shows "bit ((s XOR 2 ^ m) XOR 2 ^ n) i \<longleftrightarrow>
         (if i = m \<or> i = n then \<not> bit s i else bit s i)"
  using assms by (auto simp: bit_xor_iff bit_exp_iff)

lemma bit_eight: "bit (8 :: int) i \<longleftrightarrow> i = 3"
proof -
  have "bit ((2 :: int) ^ 3) i \<longleftrightarrow> i = 3" by (simp only: bit_exp_iff) simp
  then show ?thesis by simp
qed

section \<open>Properties of the Demo23 and Demo24 layers\<close>

lemma forward_inner_d23_missing:
  assumes "k \<in> set ks" "input_qn k = None"
  shows "forward_inner_d23 L input_qn out_k tot ks = Inl KeyError"
  using assms
proof (induction ks arbitrary: tot)
  case Nil
  then show ?case by simp
next
  case (Cons in_k ks)
  show ?case
  proof (cases "in_k = k")
    case True
    with Cons.prems show ?thesis
      by (simp add: subscript_def split: option.split sum.split)
  next
    case False
    with Cons have "forward_inner_d23 L input_qn out_k tot' ks = Inl KeyError" for tot'
      by simp
    then show ?thesis
      by (simp add: subscript_def split: option.split sum.split)
  qed
qed

lemma forward_inner_d23_cong:
  assumes "\<And>k. k \<in> set ks \<Longrightarrow> input_qn k = input_qn' k"
  shows "forward_inner_d23 L input_qn out_k tot ks = forward_inner_d23 L input_qn' out_k tot ks"
  using assms
  by (induction ks arbitrary: tot) (auto simp: subscript_def split: option.split sum.split)

lemma forward_outer_d23_cong:
  assumes "\<And>k. k \<in> set (input_keys L) \<Longrightarrow> input_qn k = input_qn' k"
  shows "forward_outer_d23 L input_qn output_qn ks = forward_outer_d23 L input_qn' output_qn ks"
proof (induction ks arbitrary: output_qn)
  case Nil
  then show ?case by simp
next
  case (Cons out_k ks)
  have inner: "forward_inner_d23 L input_qn out_k b (input_keys L)
      = forward_inner_d23 L input_qn' out_k b (input_keys L)" for b
    using assms by (rule forward_inner_d23_cong)
  show ?case
    by (simp only: forward_outer_d23.simps inner Cons.IH)
qed

lemma errors_d23_missing:
  assumes "k \<in> set ks" "target_qn k = None \<or> output_qn k = None"
  shows "errors_d23 target_qn output_qn errs ks = Inl KeyError"
  using assms
proof (induction ks arbitrary: errs)
  case Nil
  then show ?case by simp
next
  case (Cons k' ks)
  show ?case
  proof (cases "k' = k")
    case True
    with Cons.prems show ?thesis
      by (auto simp: subscript_def split: option.split sum.split)
  next
    case False
    with Cons have "errors_d23 target_qn output_qn errs' ks = Inl KeyError" for errs'
      by simp
    then show ?thesis
      by (simp add: subscript_def split: option.split sum.split)
  qed
qed

lemma forward_inner_d23_ones:
  assumes "weights L out_k = Some wd" "\<forall>k \<in> set ks. wd k = Some 1 \<and> input_qn k \<noteq> None"
  shows "forward_inner_d23 L input_qn out_k tot ks = Inr (tot + (\<Sum>k\<leftarrow>ks. get0 input_qn k))"
  using assms(2)
proof (induction ks arbitrary: tot)
  case Nil
  then show ?case by simp
next
  case (Cons k ks)
  then obtain v where v: "input_qn k = Some v" by auto
  from Cons.prems have wk: "wd k = Some 1" by simp
  from Cons have "forward_inner_d23 L input_qn out_k (tot + v) ks
      = Inr (tot + v + (\<Sum>k\<leftarrow>ks. get0 input_qn k))"
    by simp
  then show ?case
    using assms(1) v wk by (simp add: subscript_def get0_def)
qed

text \<open>All weights 1, all biases 0, and a non-zero modulus for an output key.\<close>

definition unit_output_d23 :: "layer23 \<Rightarrow> key \<Rightarrow> bool" where
  "unit_output_d23 L out_k \<longleftrightarrow> biases L out_k = Some 0
     \<and> (\<exists>wd. weights L out_k = Some wd \<and> (\<forall>k \<in> set (input_keys L). wd k = Some 1))
     \<and> (\<exists>m. bases L out_k = Some m \<and> m \<noteq> 0)"

lemma forward_outer_d23_ones:
  assumes "\<forall>k \<in> set (input_keys L). input_qn k \<noteq> None"
    and "\<forall>out_k \<in> set ks. unit_output_d23 L out_k"
  shows "\<exists>output_qn. forward_outer_d23 L input_qn acc ks = Inr output_qn
     \<and> (\<forall>out_k \<in> set ks. output_qn out_k
           = Some ((\<Sum>k\<leftarrow>input_keys L. get0 input_qn k) mod the (bases L out_k)))
     \<and> (\<forall>out_k. out_k \<notin> set ks \<longrightarrow> output_qn out_k = acc out_k)"
  using assms(2)
proof (induction ks arbitrary: acc)
  case Nil
  then show ?case by simp
next
  case (Cons o1 ks)
  let ?S = "\<Sum>k\<leftarrow>input_keys L. get0 input_qn k"
  from Cons.prems obtain wd m where b: "biases L o1 = Some 0"
    and w: "weights L o1 = Some wd" "\<forall>k \<in> set (input_keys L). wd k = Some 1"
    and m: "bases L o1 = Some m" "m \<noteq> 0"
    unfolding unit_output_d23_def by auto
  have inner: "forward_inner_d23 L input_qn o1 0 (input_keys L) = Inr ?S"
    using forward_inner_d23_ones[OF w(1), of "input_keys L" input_qn 0] w(2) assms(1) by simp
  from Cons.prems have "\<forall>out_k \<in> set ks. unit_output_d23 L out_k" by simp
  from Cons.IH[OF this, of "acc(o1 \<mapsto> ?S mod m)"] obtain output_qn where
    r: "forward_outer_d23 L input_qn (acc(o1 \<mapsto> ?S mod m)) ks = Inr output_qn"
    and in_ks: "\<forall>out_k \<in> set ks. output_qn out_k = Some (?S mod the (bases L out_k))"
    and out_ks: "\<forall>out_k. out_k \<notin> set ks \<longrightarrow> output_qn out_k = (acc(o1 \<mapsto> ?S mod m)) out_k"
    by blast
  have step: "forward_outer_d23 L input_qn acc (o1 # ks) = Inr output_qn"
    using b inner m r by (simp add: subscript_def)
  have "output_qn o1 = Some (?S mod the (bases L o1))"
  proof (cases "o1 \<in> set ks")
    case True
    with in_ks show ?thesis by blast
  next
    case False
    with out_ks m show ?thesis by simp
  qed
  with step in_ks out_ks show ?case
    by (intro exI[of _ output_qn]) auto
qed

lemma forward_d23_ones:
  assumes "\<forall>k \<in> set (input_keys L). input_qn k \<noteq> None"
    and "\<forall>out_k \<in> set (output_keys L). unit_output_d23 L out_k"
  shows "\<exists>output_qn. forward_d23 L input_qn = Inr output_qn
     \<and> (\<forall>out_k \<in> set (output_keys L). output_qn out_k
           = Some ((\<Sum>k\<leftarrow>input_keys L. get0 input_qn k) mod the (bases L out_k)))"
  using forward_outer_d23_ones[OF assms, of Map.empty] unfolding forward_d23_def by blast

lemma forward_d23_no_modulus:
  assumes "output_keys L = out_k # ks" "bases L out_k = None"
  shows "\<exists>err. forward_d23 L input_qn = Inl err"
  using assms
  by (simp add: forward_d23_def subscript_def split: option.split sum.split)

lemma digits_value_snoc_zero: "digits_value b (ds @ [0]) = digits_value b ds"
  by (simp add: digits_value_def)

lemma digits_value_pop_zeros_rev: "digits_value b (rev (pop_zeros_rev rs)) = digits_value b (rev rs)"
  by (induction rs) (auto simp: digits_value_snoc_zero)

lemma to_int_normalize: "to_int (normalize_d24 q) = to_int q"
proof -
  let ?ds = "rev (pop_zeros_rev (rev (digits24 q)))"
  have v: "digits_value (base24 q) ?ds = digits_value (base24 q) (digits24 q)"
    using digits_value_pop_zeros_rev[of "base24 q" "rev (digits24 q)"] by simp
  show ?thesis
  proof (cases "?ds = [0]")
    case True
    with v have "digits_value (base24 q) (digits24 q) = 0"
      by (simp add: digits_value_def)
    with True show ?thesis
      by (simp add: to_int_def normalize_d24_def Let_def digits_value_def)
  next
    case False
    with v show ?thesis
      by (simp add: to_int_def normalize_d24_def Let_def)
  qed
qed

lemma digits_loop_value:
  assumes "2 \<le> b" "0 \<le> n"
  shows "\<exists>ds'. digits_loop b n ds = Some (Inr (ds @ ds')) \<and> digits_value b ds' = n"
  using assms(2)
proof (induction "nat n" arbitrary: n ds rule: less_induct)
  case less
  show ?case
  proof (cases "n > 0")
    case False
    with less.prems have "n = 0" by simp
    then show ?thesis
      by (subst digits_loop.simps) (simp add: digits_value_def)
  next
    case True
    with assms(1) have lt: "nat (n div b) < nat n" and ge: "0 \<le> n div b"
      by (simp_all add: pos_imp_zdiv_nonneg_iff zdiv_mono2 div_less_dividend nat_less_iff
          int_div_less_self)
    from less.hyps[OF lt ge, of "ds @ [n mod b]"] obtain ds' where
      r: "digits_loop b (n div b) (ds @ [n mod b]) = Some (Inr ((ds @ [n mod b]) @ ds'))"
      and v: "digits_value b ds' = n div b"
      by blast
    have "digits_loop b n ds = Some (Inr (ds @ (n mod b) # ds'))"
      using True assms(1) r by (subst digits_loop.simps) simp
    moreover have "digits_value b ((n mod b) # ds') = n"
      using v by (simp add: digits_value_def)
    ultimately show ?thesis by blast
  qed
qed

lemma to_int_empty: "to_int (empty_qnum24 b) = 0"
  by (simp add: empty_qnum24_def to_int_normalize) (simp add: to_int_def digits_value_def)

lemma base_normalize: "base24 (normalize_d24 q) = base24 q"
  by (simp add: normalize_d24_def Let_def)

lemma add_d24_empty:
  assumes "2 \<le> b"
  shows "\<exists>q. add_d24 (empty_qnum24 b) v = Some (Inr q) \<and> to_int q = v"
proof (cases "v = 0")
  case True
  then show ?thesis by (simp add: add_d24_def to_int_empty)
next
  case False
  let ?e = "empty_qnum24 b"
  have be: "base24 ?e = b" by (simp add: empty_qnum24_def base_normalize)
  from digits_loop_value[OF assms, of "\<bar>v\<bar>" "[]"] obtain ds where
    l: "digits_loop b \<bar>v\<bar> [] = Some (Inr ds)" and dv: "digits_value b ds = \<bar>v\<bar>"
    by auto
  let ?q = "normalize_d24 (?e\<lparr>digits24 := ds, sign24 := (if v \<ge> 0 then 1 else - 1)\<rparr>)"
  have "add_d24 ?e v = Some (Inr ?q)"
    using False l by (simp add: add_d24_def to_int_empty be Let_def)
  moreover have "to_int ?q = v"
    using dv by (simp add: to_int_normalize) (simp add: to_int_def be)
  ultimately show ?thesis by blast
qed

text \<open>All weights read 1 and the bias reads 0, for an output key of the Demo24 layer.\<close>

definition unit_output_d24 :: "layer24 \<Rightarrow> key \<Rightarrow> bool" where
  "unit_output_d24 L out_k \<longleftrightarrow>
     (\<exists>b. biases24 L out_k = Some b \<and> to_int b = 0)
     \<and> (\<exists>wd. weights24 L out_k = Some wd
           \<and> (\<forall>k \<in> set (input_keys24 L). \<exists>w. wd k = Some w \<and> to_int w = 1))"

lemma forward_inner_d24_ones:
  assumes "weights24 L out_k = Some wd" "\<forall>k \<in> set ks. \<exists>w. wd k = Some w \<and> to_int w = 1"
  shows "forward_inner_d24 L inp out_k tot ks = Inr (tot + (\<Sum>k\<leftarrow>ks. get0 inp k))"
  using assms(2)
proof (induction ks arbitrary: tot)
  case Nil
  then show ?case by simp
next
  case (Cons k ks)
  then obtain w where w: "wd k = Some w" "to_int w = 1" by auto
  from Cons have "forward_inner_d24 L inp out_k (tot + get0 inp k) ks
      = Inr (tot + get0 inp k + (\<Sum>k\<leftarrow>ks. get0 inp k))"
    by simp
  then show ?case
    using assms(1) w by (simp add: subscript_def)
qed

lemma forward_inner_d24_cong:
  assumes "\<And>k. k \<in> set ks \<Longrightarrow> get0 inp k = get0 inp' k"
  shows "forward_inner_d24 L inp out_k tot ks = forward_inner_d24 L inp' out_k tot ks"
  using assms
  by (induction ks arbitrary: tot) (auto simp: subscript_def split: option.split sum.split)

lemma forward_outer_d24_cong:
  assumes "\<And>k. k \<in> set (input_keys24 L) \<Longrightarrow> get0 inp k = get0 inp' k"
  shows "forward_outer_d24 L inp outp ks = forward_outer_d24 L inp' outp ks"
proof (induction ks arbitrary: outp)
  case Nil
  then show ?case by simp
next
  case (Cons out_k ks)
  have inner: "forward_inner_d24 L inp out_k b (input_keys24 L)
      = forward_inner_d24 L inp' out_k b (input_keys24 L)" for b
    using assms by (rule forward_inner_d24_cong)
  show ?case
    by (simp only: forward_outer_d24.simps inner Cons.IH)
qed

lemma forward_outer_d24_ones:
  assumes "2 \<le> base_d24 L" and "\<forall>out_k \<in> set ks. unit_output_d24 L out_k"
  shows "\<exists>outp. forward_outer_d24 L inp acc ks = Some (Inr outp)
     \<and> (\<forall>out_k \<in> set ks. \<exists>q. outp out_k = Some q
           \<and> to_int q = (\<Sum>k\<leftarrow>input_keys24 L. get0 inp k))
     \<and> (\<forall>out_k. out_k \<notin> set ks \<longrightarrow> outp out_k = acc out_k)"
  using assms(2)
proof (induction ks arbitrary: acc)
  case Nil
  then show ?case by simp
next
  case (Cons o1 ks)
  let ?S = "\<Sum>k\<leftarrow>input_keys24 L. get0 inp k"
  from Cons.prems obtain b wd where b: "biases24 L o1 = Some b" "to_int b = 0"
    and w: "weights24 L o1 = Some wd" "\<forall>k \<in> set (input_keys24 L). \<exists>w. wd k = Some w \<and> to_int w = 1"
    unfolding unit_output_d24_def by auto
  have inner: "forward_inner_d24 L inp o1 0 (input_keys24 L) = Inr ?S"
    using forward_inner_d24_ones[OF w, of inp 0] by simp
  from add_d24_empty[OF assms(1), of ?S] obtain q where
    q: "add_d24 (empty_qnum24 (base_d24 L)) ?S = Some (Inr q)" "to_int q = ?S"
    by blast
  from Cons.prems have "\<forall>out_k \<in> set ks. unit_output_d24 L out_k" by simp
  from Cons.IH[OF this, of "acc(o1 \<mapsto> q)"] obtain outp where
    r: "forward_outer_d24 L inp (acc(o1 \<mapsto> q)) ks = Some (Inr outp)"
    and in_ks: "\<forall>out_k \<in> set ks. \<exists>q. outp out_k = Some q \<and> to_int q = ?S"
    and out_ks: "\<forall>out_k. out_k \<notin> set ks \<longrightarrow> outp out_k = (acc(o1 \<mapsto> q)) out_k"
    by blast
  have step: "forward_outer_d24 L inp acc (o1 # ks) = Some (Inr outp)"
    using b inner q(1) r by (simp add: subscript_def)
  have "\<exists>q. outp o1 = Some q \<and> to_int q = ?S"
  proof (cases "o1 \<in> set ks")
    case True
    with in_ks show ?thesis by blast
  next
    case False
    with out_ks q(2) show ?thesis by simp
  qed
  with step in_ks out_ks show ?case
    by (intro exI[of _ outp]) auto
qed

lemma forward_d24_ones:
  assumes "2 \<le> base_d24 L" and "\<forall>out_k \<in> set (output_keys24 L). unit_output_d24 L out_k"
  shows "\<exists>outp. forward_d24 L inp = Some (Inr outp)
     \<and> (\<forall>out_k \<in> set (output_keys24 L). \<exists>q. outp out_k = Some q
           \<and> to_int q = (\<Sum>k\<leftarrow>input_keys24 L. get0 inp k))"
  using forward_outer_d24_ones[OF assms, of inp Map.empty] unfolding forward_d24_def by blast

lemma forward_d24_cong:
  assumes "\<forall>k \<in> set (input_keys24 L). get0 inp k = get0 inp' k"
  shows "forward_d24 L inp = forward_d24 L inp'"
  unfolding forward_d24_def using assms by (intro forward_outer_d24_cong) auto



section \<open>\<open>forward\<close> of the Demo28 layer with unit weights\<close>

text \<open>A cell whose coefficient \<open>a\<close> is \<open>v\<close> and whose other coefficients are zero.\<close>

definition plain :: "cell \<Rightarrow> int \<Rightarrow> bool" where
  "plain q v \<longleftrightarrow> ca q = v \<and> cb q = 0 \<and> cc q = 0 \<and> cd q = 0 \<and> ce q = 0 \<and> cf q = 0"

lemma digit_le: "digit v \<le> 10"
  by (simp add: digit_def) presburger




lemma add_d28_reading:
  assumes "chain h x ps" "y < length h"
  shows "\<exists>ps'. chain (add_d28 h x y) x ps' \<and> set ps' \<subseteq> set ps \<union> {p. length h \<le> p}
           \<and> (\<forall>fld. recon (add_d28 h x y) fld ps' = recon h fld ps + getattr (h ! y) fld)"
proof -
  from add_d28_chain[OF assms] obtain ps' where
    c: "chain (add_d28 h x y) x ps'" and sub: "set ps' \<subseteq> set ps \<union> {p. length h \<le> p}"
    by blast
  have "recon (add_d28 h x y) fld ps' = recon h fld ps + getattr (h ! y) fld" for fld
  proof -
    from add_d28_recon[OF assms, of fld] obtain ps'' where
      c': "chain (add_d28 h x y) x ps''"
      and r: "recon (add_d28 h x y) fld ps'' = recon h fld ps + getattr (h ! y) fld"
      by blast
    from chain_unique[OF c c'] r show ?thesis by simp
  qed
  with c sub show ?thesis by blast
qed

text \<open>The sum that a list of weight entries contributes when every weight is 1.\<close>

definition input_sum :: "(key \<rightharpoonup> int) \<Rightarrow> (key \<times> addr) list \<Rightarrow> int" where
  "input_sum inp wd = (\<Sum>iq\<leftarrow>wd. get0 inp (fst iq))"

definition reads :: "heap \<Rightarrow> addr list \<Rightarrow> int \<Rightarrow> bool" where
  "reads h ps v \<longleftrightarrow> (\<forall>fld. recon h fld ps = (if fld = FA then v else 0))"

lemma getattr_plain: "plain q v \<Longrightarrow> getattr q fld = (if fld = FA then v else 0)"
  by (cases fld) (simp_all add: plain_def)

lemma forward_weights_d28_one_step:
  assumes q: "q < length h" "plain (h ! q) 1" and v: "get0 inp i \<le> 10"
  shows "\<exists>T C. forward_weights_d28 h inp s ((i, q) # rest)
            = forward_weights_d28 (add_d28 (h @ [T, C]) s (length h)) inp s rest
          \<and> plain T (get0 inp i)"
proof -
  let ?v = "get0 inp i"
  let ?n = "length h"
  let ?T0 = "new_cell\<lparr>ca := 1, cb := 0, cc := 0, cd := 0, ce := 0, cf := 0\<rparr>"
  have no_sc: "\<not> scale_overflows ?T0 ?v"
    using v by (simp add: scale_overflows_def new_cell_def)
  let ?T1 = "cell_scale ?T0 ?v" and ?C1 = "cell_scale_carry ?T0 ?v"
  have T1: "plain ?T1 ?v" "left ?T1 = None"
    using no_sc by (simp_all add: plain_def cell_scale_def scale_overflows_def digit_def new_cell_def)
  have sc: "scale_by_int_d28 (h @ [?T0]) ?n ?v = h @ [?T1, ?C1]"
    using no_sc T1(2)
    by (subst scale_by_int_d28_no_left) (simp_all add: nth_append new_cell_def)
  have "forward_weights_d28 h inp s ((i, q) # rest)
      = forward_weights_d28 (add_d28 (h @ [?T1, ?C1]) s ?n) inp s rest"
    using q sc by (simp add: alloc_def nth_append plain_def)
  with T1(1) show ?thesis by blast
qed

lemma forward_weights_d28_reading:
  assumes "n0 \<le> s" "chain h s ps" "set ps \<subseteq> {p. n0 \<le> p}" "reads h ps acc"
    and "\<forall>iq \<in> set wd. snd iq < n0 \<and> plain (h ! snd iq) 1 \<and> get0 inp (fst iq) \<le> 10"
  shows "\<exists>ps'. chain (forward_weights_d28 h inp s wd) s ps' \<and> set ps' \<subseteq> {p. n0 \<le> p}
       \<and> reads (forward_weights_d28 h inp s wd) ps' (acc + input_sum inp wd)
       \<and> length h \<le> length (forward_weights_d28 h inp s wd)
       \<and> (\<forall>p < n0. forward_weights_d28 h inp s wd ! p = h ! p)"
  using assms(2-)
proof (induction wd arbitrary: h ps acc)
  case Nil
  then show ?case by (auto simp: input_sum_def)
next
  case (Cons iq wd)
  obtain i q where iq: "iq = (i, q)" by (cases iq)
  let ?v = "get0 inp i"
  let ?n = "length h"
  have ps_in: "\<And>p. p \<in> set ps \<Longrightarrow> p < length h" using chain_in_heap[OF Cons.prems(1)] .
  have s_in: "s < length h" using chain_hd[OF Cons.prems(1)] ps_in by auto
  with assms(1) have n0: "n0 < length h" by simp
  from Cons.prems(4) iq have q: "q < n0" "plain (h ! q) 1" "?v \<le> 10" by auto
  with n0 have qh: "q < length h" by simp
  from forward_weights_d28_one_step[OF qh q(2,3), of s wd] obtain T C where
    st: "forward_weights_d28 h inp s ((i, q) # wd)
            = forward_weights_d28 (add_d28 (h @ [T, C]) s ?n) inp s wd"
    and T: "plain T ?v"
    by blast
  let ?h3 = "h @ [T, C]"
  let ?h4 = "add_d28 ?h3 s ?n"
  have c3: "chain ?h3 s ps"
    using Cons.prems(1)
  proof (rule chain_frame)
    fix p assume "p \<in> set ps"
    from ps_in[OF this] show "p < length ?h3 \<and> left (?h3 ! p) = left (h ! p)"
      by (simp add: nth_append)
  qed
  have r3: "recon ?h3 fld ps = recon h fld ps" for fld
  proof (rule recon_frame)
    fix p assume "p \<in> set ps"
    from ps_in[OF this] show "getattr (?h3 ! p) fld = getattr (h ! p) fld"
      by (simp add: nth_append)
  qed
  from add_d28_reading[OF c3, of ?n] obtain ps' where
    c4: "chain ?h4 s ps'" and sub4: "set ps' \<subseteq> set ps \<union> {p. length ?h3 \<le> p}"
    and r4: "\<forall>fld. recon ?h4 fld ps' = recon ?h3 fld ps + getattr (?h3 ! ?n) fld"
    by auto
  have sub: "set ps' \<subseteq> {p. n0 \<le> p}"
    using sub4 Cons.prems(2) n0 by auto
  have rd: "reads ?h4 ps' (acc + ?v)"
    unfolding reads_def
  proof
    fix fld
    from r4 have "recon ?h4 fld ps' = recon h fld ps + getattr T fld"
      by (simp add: r3)
    with Cons.prems(3) getattr_plain[OF T, of fld]
    show "recon ?h4 fld ps' = (if fld = FA then acc + ?v else 0)"
      by (simp add: reads_def)
  qed
  have fr4: "?h4 ! p = h ! p" if "p < n0" for p
  proof -
    from that Cons.prems(2) have "p \<notin> set ps" by auto
    moreover from that n0 have "p < length ?h3" by simp
    ultimately have "?h4 ! p = ?h3 ! p"
      using c3 by (intro add_d28_frame[where ps = ps]) simp_all
    with that n0 show ?thesis by (simp add: nth_append)
  qed
  have len4: "length h \<le> length ?h4"
    using length_add_d28[of ?h3 s ?n] by simp
  have wd4: "\<forall>iq \<in> set wd. snd iq < n0 \<and> plain (?h4 ! snd iq) 1 \<and> get0 inp (fst iq) \<le> 10"
    using Cons.prems(4) fr4 by auto
  from Cons.IH[OF c4 sub rd wd4] obtain ps'' where
    r: "chain (forward_weights_d28 ?h4 inp s wd) s ps''" "set ps'' \<subseteq> {p. n0 \<le> p}"
      "reads (forward_weights_d28 ?h4 inp s wd) ps'' (acc + ?v + input_sum inp wd)"
      "length ?h4 \<le> length (forward_weights_d28 ?h4 inp s wd)"
      "\<forall>p < n0. forward_weights_d28 ?h4 inp s wd ! p = ?h4 ! p"
    by blast
  have "acc + ?v + input_sum inp wd = acc + input_sum inp (iq # wd)"
    by (simp add: input_sum_def iq)
  with r(3) have "reads (forward_weights_d28 ?h4 inp s wd) ps'' (acc + input_sum inp (iq # wd))"
    by simp
  moreover have "\<forall>p < n0. forward_weights_d28 ?h4 inp s wd ! p = h ! p"
    using r(5) fr4 by simp
  moreover have "length h \<le> length (forward_weights_d28 ?h4 inp s wd)"
    using r(4) len4 by simp
  ultimately show ?case
    unfolding iq st using r(1,2) by (intro exI[of _ ps'']) simp
qed

text \<open>
  An output entry of the layer whose weights are all 1 and whose bias is 0 (each a plain
  cell of the store), with no input above 10.
\<close>

definition unit_output_d28 :: "heap \<Rightarrow> layer28 \<Rightarrow> (key \<rightharpoonup> int) \<Rightarrow> key \<times> (key \<times> addr) list \<Rightarrow> bool" where
  "unit_output_d28 h L inp owd \<longleftrightarrow>
     (\<exists>b. map_of (biases28 L) (fst owd) = Some b \<and> b < length h \<and> plain (h ! b) 0)
     \<and> (\<forall>iq \<in> set (snd owd). snd iq < length h \<and> plain (h ! snd iq) 1 \<and> get0 inp (fst iq) \<le> 10)"

lemma unit_output_d28_frame:
  assumes "unit_output_d28 h L inp owd" "length h \<le> length h'" "\<forall>p < length h. h' ! p = h ! p"
  shows "unit_output_d28 h' L inp owd"
proof -
  from assms(1) obtain b where b: "map_of (biases28 L) (fst owd) = Some b" "b < length h"
    "plain (h ! b) 0"
    and w: "\<forall>iq \<in> set (snd owd). snd iq < length h \<and> plain (h ! snd iq) 1 \<and> get0 inp (fst iq) \<le> 10"
    unfolding unit_output_d28_def by blast
  from b assms(2,3) have "b < length h'" "plain (h' ! b) 0" by simp_all
  moreover have "\<forall>iq \<in> set (snd owd). snd iq < length h' \<and> plain (h' ! snd iq) 1
      \<and> get0 inp (fst iq) \<le> 10"
  proof
    fix iq assume "iq \<in> set (snd owd)"
    with w have "snd iq < length h" "plain (h ! snd iq) 1" "get0 inp (fst iq) \<le> 10" by auto
    with assms(2,3) show "snd iq < length h' \<and> plain (h' ! snd iq) 1 \<and> get0 inp (fst iq) \<le> 10"
      by simp
  qed
  ultimately show ?thesis
    unfolding unit_output_d28_def using b(1) by blast
qed

lemma forward_outputs_d28_reading:
  assumes "\<forall>owd \<in> set wds. unit_output_d28 h L inp owd" "distinct (map fst wds)"
  shows "\<exists>h' outp. forward_outputs_d28 h L inp acc wds = Inr (h', outp)
     \<and> length h \<le> length h' \<and> (\<forall>p < length h. h' ! p = h ! p)
     \<and> (\<forall>owd \<in> set wds. \<exists>s ps. outp (fst owd) = Some s \<and> chain h' s ps
           \<and> reads h' ps (input_sum inp (snd owd)))
     \<and> (\<forall>k. k \<notin> fst ` set wds \<longrightarrow> outp k = acc k)"
  using assms
proof (induction wds arbitrary: h acc)
  case Nil
  then show ?case by simp
next
  case (Cons owd wds)
  obtain o1 wd where owd: "owd = (o1, wd)" by (cases owd)
  let ?s = "length h"
  let ?h1 = "h @ [new_cell]"
  from Cons.prems(1) owd obtain b where b: "map_of (biases28 L) o1 = Some b" "b < length h"
    "plain (h ! b) 0"
    and wd: "\<forall>iq \<in> set wd. snd iq < length h \<and> plain (h ! snd iq) 1 \<and> get0 inp (fst iq) \<le> 10"
    unfolding unit_output_d28_def by auto
  have wd1: "\<forall>iq \<in> set wd. snd iq < ?s \<and> plain (?h1 ! snd iq) 1 \<and> get0 inp (fst iq) \<le> 10"
  proof
    fix iq assume "iq \<in> set wd"
    with wd have "snd iq < length h" "plain (h ! snd iq) 1" "get0 inp (fst iq) \<le> 10" by auto
    then show "snd iq < ?s \<and> plain (?h1 ! snd iq) 1 \<and> get0 inp (fst iq) \<le> 10"
      by (simp add: nth_append)
  qed
  have c1: "chain ?h1 ?s [?s]" by (simp add: new_cell_def)
  have rd1: "reads ?h1 [?s] 0"
    unfolding reads_def
  proof
    fix fld show "recon ?h1 fld [?s] = (if fld = FA then 0 else 0)"
      by (cases fld) (simp_all add: new_cell_def)
  qed
  let ?h2 = "forward_weights_d28 ?h1 inp ?s wd"
  from forward_weights_d28_reading[OF order_refl c1 _ rd1 wd1] obtain ps2 where
    c2: "chain ?h2 ?s ps2" and sub2: "set ps2 \<subseteq> {p. ?s \<le> p}"
    and rd2: "reads ?h2 ps2 (input_sum inp wd)"
    and len2: "length ?h1 \<le> length ?h2" and fr2: "\<forall>p < ?s. ?h2 ! p = ?h1 ! p"
    by auto
  have old2: "?h2 ! p = h ! p" if "p < length h" for p
    using fr2 that by (simp add: nth_append)
  have b2: "b < length ?h2" using len2 b(2) by simp
  let ?h3 = "add_d28 ?h2 ?s b"
  from add_d28_reading[OF c2 b2] obtain ps3 where
    c3: "chain ?h3 ?s ps3" and r3: "\<forall>fld. recon ?h3 fld ps3 = recon ?h2 fld ps2 + getattr (?h2 ! b) fld"
    by blast
  have rd3: "reads ?h3 ps3 (input_sum inp wd)"
    unfolding reads_def
  proof
    fix fld
    from b have "getattr (?h2 ! b) fld = 0"
      using getattr_plain[of "h ! b" 0 fld] by (simp add: old2)
    with r3 rd2 show "recon ?h3 fld ps3 = (if fld = FA then input_sum inp wd else 0)"
      by (simp add: reads_def)
  qed
  have old3: "\<forall>p < length h. ?h3 ! p = h ! p"
  proof (intro allI impI)
    fix p assume p: "p < length h"
    with sub2 have "p \<notin> set ps2" by auto
    moreover from p len2 have "p < length ?h2" by simp
    ultimately have "?h3 ! p = ?h2 ! p"
      using c2 b2 by (intro add_d28_frame[where ps = ps2]) simp_all
    with old2[OF p] show "?h3 ! p = h ! p" by simp
  qed
  have len3: "length h \<le> length ?h3"
    using length_add_d28[of ?h2 ?s b] len2 by simp
  have units: "\<forall>owd \<in> set wds. unit_output_d28 ?h3 L inp owd"
    using Cons.prems(1) unit_output_d28_frame[OF _ len3 old3] by auto
  from Cons.prems(2) have dist: "distinct (map fst wds)" and o1: "o1 \<notin> fst ` set wds"
    by (auto simp: owd)
  from Cons.IH[OF units dist, of "acc(o1 \<mapsto> ?s)"] obtain h' outp where
    r: "forward_outputs_d28 ?h3 L inp (acc(o1 \<mapsto> ?s)) wds = Inr (h', outp)"
    and len': "length ?h3 \<le> length h'" and old': "\<forall>p < length ?h3. h' ! p = ?h3 ! p"
    and outs: "\<forall>owd \<in> set wds. \<exists>s ps. outp (fst owd) = Some s \<and> chain h' s ps
           \<and> reads h' ps (input_sum inp (snd owd))"
    and rest: "\<forall>k. k \<notin> fst ` set wds \<longrightarrow> outp k = (acc(o1 \<mapsto> ?s)) k"
    by blast
  have step: "forward_outputs_d28 h L inp acc (owd # wds) = Inr (h', outp)"
    unfolding owd using b(1) r by (simp add: alloc_def)
  have ps3_in: "\<And>p. p \<in> set ps3 \<Longrightarrow> p < length ?h3" using chain_in_heap[OF c3] .
  have c': "chain h' ?s ps3"
    using c3
  proof (rule chain_frame)
    fix p assume "p \<in> set ps3"
    from ps3_in[OF this] old' len' show "p < length h' \<and> left (h' ! p) = left (?h3 ! p)"
      by simp
  qed
  have rd': "reads h' ps3 (input_sum inp wd)"
    unfolding reads_def
  proof
    fix fld
    have "recon h' fld ps3 = recon ?h3 fld ps3"
    proof (rule recon_frame)
      fix p assume "p \<in> set ps3"
      from ps3_in[OF this] old' show "getattr (h' ! p) fld = getattr (?h3 ! p) fld" by simp
    qed
    with rd3 show "recon h' fld ps3 = (if fld = FA then input_sum inp wd else 0)"
      by (simp add: reads_def)
  qed
  have "length h \<le> length h'" using len3 len' by simp
  moreover have "\<forall>p < length h. h' ! p = h ! p"
  proof (intro allI impI)
    fix p assume p: "p < length h"
    with len3 have "p < length ?h3" by simp
    with old' old3 p show "h' ! p = h ! p" by simp
  qed
  moreover have "\<exists>s ps. outp o1 = Some s \<and> chain h' s ps \<and> reads h' ps (input_sum inp wd)"
    using rest o1 c' rd' by (intro exI[of _ ?s] exI[of _ ps3]) simp
  moreover have "\<forall>k. k \<notin> fst ` set (owd # wds) \<longrightarrow> outp k = acc k"
    using rest by (simp add: owd)
  ultimately show ?case
    using step outs unfolding owd by (intro exI[of _ h'] exI[of _ outp]) simp
qed

section \<open>The single scalar example on the Demo28 layer\<close>

text \<open>
  The single scalar example: one input \<open>i\<close>, one output \<open>o\<close>; weight cell 0 with \<open>a = 1\<close>,
  bias cell 1 with \<open>a = 0\<close>; input 2, target 10.
\<close>

definition scalar_layer :: layer28 where
  "scalar_layer = \<lparr>weights28 = [(''o'', [(''i'', 0)])], biases28 = [(''o'', 1)]\<rparr>"

definition scalar_heap :: heap where
  "scalar_heap = [cell_a 1 None, cell_a 0 None]"



lemma forward_scalar:
  assumes len: "2 \<le> length h" and w: "plain (h ! 0) w" and b: "plain (h ! 1) b"
  shows "\<exists>cs. forward_d28 h scalar_layer [''i'' \<mapsto> v] = Inr (h @ cs, [''o'' \<mapsto> length h])
           \<and> cs \<noteq> [] \<and> ca ((h @ cs) ! length h) = kept (digit (w * v) + b)
           \<and> left ((h @ cs) ! length h)
               = (if digit (w * v) + b > 10 then Some (length h + 4) else None)"
proof -
  let ?n = "length h"
  let ?t0 = "new_cell\<lparr>ca := w, cb := 0, cc := 0, cd := 0, ce := 0, cf := 0\<rparr>"
  let ?h2 = "h @ [new_cell, ?t0]"
  have l0: "0 < length h" "1 < length h" using len by linarith+
  let ?t1 = "(cell_scale ?t0 v)\<lparr>left := if scale_overflows ?t0 v then Some (?n + 2) else None\<rparr>"
  let ?c1 = "cell_scale_carry ?t0 v"
  let ?h3 = "h @ [new_cell, ?t1, ?c1]"
  have s3: "scale_by_int_d28 ?h2 (Suc ?n) v = ?h3"
    by (subst scale_by_int_d28_no_left) (simp_all add: nth_append list_update_append new_cell_def)
  let ?s1 = "(cell_add new_cell ?t1)\<lparr>left := None\<rparr>"
  have no1: "\<not> overflows new_cell ?t1"
    using digit_le[of "w * v"]
    by (simp add: overflows_def new_cell_def cell_scale_def digit_def)
  let ?c2 = "cell_carry new_cell ?t1"
  let ?h4 = "h @ [?s1, ?t1, ?c1, ?c2]"
  have s4: "add_d28 ?h3 ?n (Suc ?n) = ?h4"
    using no1
    by (subst add_d28_no_left) (simp_all add: nth_append new_cell_def list_update_append)
  let ?s2 = "(cell_add ?s1 (h ! 1))\<lparr>left := if overflows ?s1 (h ! 1) then Some (?n + 4) else None\<rparr>"
  let ?c3 = "cell_carry ?s1 (h ! 1)"
  let ?h5 = "h @ [?s2, ?t1, ?c1, ?c2, ?c3]"
  have s5: "add_d28 ?h4 ?n 1 = ?h5"
    using l0
    by (subst add_d28_no_left) (simp_all add: nth_append list_update_append)
  have fw: "forward_d28 h scalar_layer [''i'' \<mapsto> v] = Inr (?h5, [''o'' \<mapsto> ?n])"
    using l0 w s3 s4 s5
    by (simp add: forward_d28_def scalar_layer_def alloc_def get0_def
        nth_append plain_def)
  have "ca (?h5 ! ?n) = kept (digit (w * v) + b)"
    using b digit_le[of "w * v"]
    by (simp add: cell_add_def cell_scale_def new_cell_def plain_def kept_def)
  moreover have "digit 0 = 0" by (simp add: digit_def)
  then have "left (?h5 ! ?n) = (if digit (w * v) + b > 10 then Some (?n + 4) else None)"
    using b digit_le[of "w * v"]
    by (simp add: overflows_def cell_add_def cell_scale_def new_cell_def plain_def kept_def)
  ultimately show ?thesis using fw by blast
qed















section \<open>Closed forms on fractional coefficients\<close>


















section \<open>The single scalar example with a fractional learning rate\<close>













section \<open>Integer coefficients inside the fractional ones\<close>











































section \<open>The error sequence for rates inside the bound\<close>







section \<open>The claims\<close>

definition scale_example :: heap where
  "scale_example = [cell_a 3 (Some 1), cell_a 1 None]"

definition add_example :: "int \<Rightarrow> int \<Rightarrow> heap" where
  "add_example v w = [cell_a v None, cell_a w None]"

definition alias_example :: heap where
  "alias_example = [cell_a 9 (Some 1), cell_a 5 None]"

text \<open>An example layer: input key \<open>a\<close>, output key \<open>x\<close> with modulus 7, weight 1, bias 0.\<close>

definition layer23_example :: layer23 where
  "layer23_example = \<lparr>input_keys = [''a''], output_keys = [''x''], bases = [''x'' \<mapsto> 7],
     weights = [''x'' \<mapsto> [''a'' \<mapsto> 1]], biases = [''x'' \<mapsto> 0]\<rparr>"

text \<open>An example layer: input key \<open>a\<close>, output key \<open>x\<close>, base 10, weight 1, bias 0.\<close>

definition layer24_example :: layer24 where
  "layer24_example = \<lparr>base_d24 = 10, input_keys24 = [''a''], output_keys24 = [''x''],
     weights24 = [''x'' \<mapsto> [''a'' \<mapsto> \<lparr>digits24 = [1], base24 = 10, sign24 = 1\<rparr>]],
     biases24 = [''x'' \<mapsto> \<lparr>digits24 = [0], base24 = 10, sign24 = 1\<rparr>]\<rparr>"

text \<open>
  An example layer with two inputs \<open>i\<close> and \<open>j\<close> and one output \<open>o\<close>: weight cells 0 and
  1 with \<open>a = 1\<close>, bias cell 2 with \<open>a = 0\<close>; inputs 6 and 7.
\<close>

definition pair_heap :: heap where
  "pair_heap = [cell_a 1 None, cell_a 1 None, cell_a 0 None]"

definition pair_layer :: layer28 where
  "pair_layer = \<lparr>weights28 = [(''o'', [(''i'', 0), (''j'', 1)])], biases28 = [(''o'', 2)]\<rparr>"

definition pair_input :: "key \<rightharpoonup> int" where
  "pair_input = [''i'' \<mapsto> 6, ''j'' \<mapsto> 7]"

lemma layer24_example_unit:
  "2 \<le> base_d24 layer24_example
   \<and> (\<forall>out_k \<in> set (output_keys24 layer24_example). unit_output_d24 layer24_example out_k)"
  by (simp add: layer24_example_def unit_output_d24_def to_int_def digits_value_def)

lemmas cell_eval = overflows_def cell_add_def cell_carry_def kept_def flagged_def cell_a_def
  new_cell_def scale_overflows_def cell_scale_def cell_scale_carry_def digit_def quot_def

text \<open>
  C1, as the claim states it, fails: with \<open>x.a = 6\<close> and \<open>y.a = 4\<close> the sum 10 is kept whole
  in \<open>x.a\<close> and nothing is carried, where the claim asks for \<open>10 mod 10\<close> in \<open>x.a\<close> and
  \<open>10 div 10\<close> in a carry cell linked at \<open>x.left\<close>.
\<close>

theorem C1_add_mod_base_counterexample:
  "\<not> (ca (add_d28 (add_example 6 4) 0 1 ! 0) = (6 + 4) mod 10
      \<and> left (add_d28 (add_example 6 4) 0 1 ! 0) \<noteq> None)"
  by (simp add: add_example_def add_d28_unfold cell_eval)

text \<open>
  C1, amended: for every two cells \<open>x\<close> and \<open>y\<close> of the store, \<open>add\<close> computes for each
  field the sum of the two fields; a sum above 10 is kept as the sum minus 10 with 1 in
  the same field of the carry cell, any other sum is kept whole with 0 in the carry cell.
  If some field carried, the carry cell is added to the cell at \<open>x.left\<close>, or becomes
  \<open>x.left\<close> when that link is absent; if none did, the links of \<open>x\<close> stay as they are.
\<close>

theorem C1_add_threshold:
  assumes "x < length h" and "y < length h"
  shows "(\<forall>fld. getattr (cell_add (h ! x) (h ! y)) fld =
            (if getattr (h ! x) fld + getattr (h ! y) fld > 10
             then getattr (h ! x) fld + getattr (h ! y) fld - 10
             else getattr (h ! x) fld + getattr (h ! y) fld))
       \<and> (\<forall>fld. getattr (cell_carry (h ! x) (h ! y)) fld =
            (if getattr (h ! x) fld + getattr (h ! y) fld > 10 then 1 else 0))
       \<and> left (cell_carry (h ! x) (h ! y)) = None
       \<and> add_d28 h x y =
           (if \<exists>fld. getattr (h ! x) fld + getattr (h ! y) fld > 10 then
              (case left (h ! x) of
                 Some l \<Rightarrow> add_d28 (h[x := cell_add (h ! x) (h ! y)] @ [cell_carry (h ! x) (h ! y)])
                             l (length h)
               | None \<Rightarrow> h[x := (cell_add (h ! x) (h ! y))\<lparr>left := Some (length h)\<rparr>]
                           @ [cell_carry (h ! x) (h ! y)])
            else h[x := cell_add (h ! x) (h ! y)] @ [new_cell])"
proof (intro conjI)
  show "add_d28 h x y =
     (if \<exists>fld. getattr (h ! x) fld + getattr (h ! y) fld > 10 then
        (case left (h ! x) of
           Some l \<Rightarrow> add_d28 (h[x := cell_add (h ! x) (h ! y)] @ [cell_carry (h ! x) (h ! y)])
                       l (length h)
         | None \<Rightarrow> h[x := (cell_add (h ! x) (h ! y))\<lparr>left := Some (length h)\<rparr>]
                     @ [cell_carry (h ! x) (h ! y)])
      else h[x := cell_add (h ! x) (h ! y)] @ [new_cell])"
    using assms cell_carry_no_overflow[of "h ! x" "h ! y"]
    by (simp add: add_d28_unfold overflows_iff[symmetric])
next
  show "\<forall>fld. getattr (cell_add (h ! x) (h ! y)) fld =
            (if getattr (h ! x) fld + getattr (h ! y) fld > 10
             then getattr (h ! x) fld + getattr (h ! y) fld - 10
             else getattr (h ! x) fld + getattr (h ! y) fld)"
    by (simp add: getattr_cell_add kept_def)
next
  show "\<forall>fld. getattr (cell_carry (h ! x) (h ! y)) fld =
            (if getattr (h ! x) fld + getattr (h ! y) fld > 10 then 1 else 0)"
    by (simp add: getattr_cell_carry flagged_def)
next
  show "left (cell_carry (h ! x) (h ! y)) = None"
    by (simp add: cell_carry_def new_cell_def)
qed

theorem C1_add_threshold_witness:
  "add_d28 (add_example 6 7) 0 1 = [cell_a 3 (Some 2), cell_a 7 None, cell_a 1 None]"
proof -
  have "(0::nat) < length (add_example 6 7)" "(1::nat) < length (add_example 6 7)"
    by (simp_all add: add_example_def)
  from C1_add_threshold[OF this] have "add_d28 (add_example 6 7) 0 1 =
     (if \<exists>fld. getattr (add_example 6 7 ! 0) fld + getattr (add_example 6 7 ! 1) fld > 10 then
        (case left (add_example 6 7 ! 0) of
           Some l \<Rightarrow> add_d28 ((add_example 6 7)[0 := cell_add (add_example 6 7 ! 0) (add_example 6 7 ! 1)]
                       @ [cell_carry (add_example 6 7 ! 0) (add_example 6 7 ! 1)])
                       l (length (add_example 6 7))
         | None \<Rightarrow> (add_example 6 7)[0 := (cell_add (add_example 6 7 ! 0) (add_example 6 7 ! 1))\<lparr>left := Some (length (add_example 6 7))\<rparr>]
                     @ [cell_carry (add_example 6 7 ! 0) (add_example 6 7 ! 1)])
      else (add_example 6 7)[0 := cell_add (add_example 6 7 ! 0) (add_example 6 7 ! 1)] @ [new_cell])"
    by blast
  moreover have "\<exists>fld. getattr (add_example 6 7 ! 0) fld + getattr (add_example 6 7 ! 1) fld > 10"
    by (rule exI[of _ FA]) (simp add: add_example_def cell_a_def new_cell_def)
  ultimately show ?thesis
    by (simp add: add_example_def cell_eval)
qed

text \<open>
  C2, as the claim states it, fails for \<open>scale_by_int\<close>: a cell with \<open>a = 3\<close> whose left
  cell has \<open>a = 1\<close> reads 13; scaled by 2 it reads 16, not 26, since only the cell itself
  is multiplied.
\<close>

theorem C2_scale_chain_counterexample:
  "chain scale_example 0 [0, 1]
   \<and> chain (scale_by_int_d28 scale_example 0 2) 0 [0, 1]
   \<and> recon scale_example FA [0, 1] = 13
   \<and> recon (scale_by_int_d28 scale_example 0 2) FA [0, 1] = 16
   \<and> recon (scale_by_int_d28 scale_example 0 2) FA [0, 1] \<noteq> recon scale_example FA [0, 1] * 2"
  by (simp add: scale_example_def scale_by_int_d28_unfold cell_eval)

text \<open>
  C2, amended: for every cell \<open>x\<close> with a finite left-chain, every operand and every
  field, after \<open>add(x, y)\<close> the mixed-radix reading of the chain of \<open>x\<close> (radix 10) is the
  reading before plus the operand's field; after \<open>scale_by_int(x, k)\<close> it is \<open>k\<close> times the
  field of \<open>x\<close> plus 10 times the reading of the rest of the chain, which is \<open>k\<close> times the
  reading before when \<open>x\<close> has no left link.  No carry is lost in either.
\<close>

theorem C2_carry_never_dropped:
  assumes "chain h x ps" and "y < length h"
  shows "(\<exists>ps'. chain (add_d28 h x y) x ps' \<and>
            recon (add_d28 h x y) fld ps' = recon h fld ps + getattr (h ! y) fld)
       \<and> (\<exists>ps'. chain (scale_by_int_d28 h x k) x ps' \<and>
            recon (scale_by_int_d28 h x k) fld ps'
              = getattr (h ! x) fld * k + 10 * recon h fld (tl ps))
       \<and> (left (h ! x) = None \<longrightarrow>
            (\<exists>ps'. chain (scale_by_int_d28 h x k) x ps' \<and>
               recon (scale_by_int_d28 h x k) fld ps' = recon h fld ps * k))"
proof (intro conjI impI)
  show "\<exists>ps'. chain (add_d28 h x y) x ps' \<and>
            recon (add_d28 h x y) fld ps' = recon h fld ps + getattr (h ! y) fld"
    using assms by (rule add_d28_recon)
next
  show "\<exists>ps'. chain (scale_by_int_d28 h x k) x ps' \<and>
            recon (scale_by_int_d28 h x k) fld ps'
              = getattr (h ! x) fld * k + 10 * recon h fld (tl ps)"
    using assms(1) by (rule scale_by_int_d28_recon)
next
  assume "left (h ! x) = None"
  with assms(1) have "ps = [x]"
    by (cases "(h, x, ps)" rule: chain.cases) auto
  with scale_by_int_d28_recon[OF assms(1), of k fld]
  show "\<exists>ps'. chain (scale_by_int_d28 h x k) x ps' \<and>
               recon (scale_by_int_d28 h x k) fld ps' = recon h fld ps * k"
    by simp
qed

theorem C2_carry_never_dropped_witness:
  "\<exists>ps'. chain (add_d28 (add_example 6 7) 0 1) 0 ps' \<and>
      recon (add_d28 (add_example 6 7) 0 1) FA ps' = 6 + 7"
proof -
  have "chain (add_example 6 7) 0 [0]" "(1::nat) < length (add_example 6 7)"
    by (simp_all add: add_example_def cell_a_def new_cell_def)
  from C2_carry_never_dropped[OF this, of FA]
  show ?thesis by (simp add: add_example_def cell_a_def new_cell_def)
qed




text \<open>
  C4, as the claim states it, fails.  In Demo23 a layer without a modulus for its output
  key cannot run \<open>forward\<close>: \<open>self.bases[out_k]\<close> raises \<open>KeyError\<close>.  In Demo28, with
  weight 1 and bias 0, the input 11 comes out as a cell with \<open>a = 1\<close> and no left link, so
  the output reads 1: the carry cell of the scaled copy is not added to the sum.
\<close>

theorem C4_plain_sum_counterexample:
  "forward_d23 (layer23_example\<lparr>bases := Map.empty\<rparr>) [''a'' \<mapsto> 6] = Inl KeyError
   \<and> (case forward_d28 scalar_heap scalar_layer [''i'' \<mapsto> 11] of
         Inl bad \<Rightarrow> False
       | Inr (h', outp) \<Rightarrow>
           (case outp ''o'' of
              None \<Rightarrow> False
            | Some s \<Rightarrow> chain h' s [s] \<and> recon h' FA [s] = 1))"
proof (intro conjI)
  show "forward_d23 (layer23_example\<lparr>bases := Map.empty\<rparr>) [''a'' \<mapsto> 6] = Inl KeyError"
    by (simp add: forward_d23_def layer23_example_def subscript_def)
  show "case forward_d28 scalar_heap scalar_layer [''i'' \<mapsto> 11] of
         Inl bad \<Rightarrow> False
       | Inr (h', outp) \<Rightarrow>
           (case outp ''o'' of
              None \<Rightarrow> False
            | Some s \<Rightarrow> chain h' s [s] \<and> recon h' FA [s] = 1)"
  proof -
    have "2 \<le> length scalar_heap" "plain (scalar_heap ! 0) 1" "plain (scalar_heap ! 1) 0"
      by (simp_all add: scalar_heap_def plain_def cell_a_def new_cell_def)
    from forward_scalar[OF this, of 11] obtain cs where
      "forward_d28 scalar_heap scalar_layer [''i'' \<mapsto> 11]
         = Inr (scalar_heap @ cs, [''o'' \<mapsto> length scalar_heap])"
      "cs \<noteq> []"
      "ca ((scalar_heap @ cs) ! length scalar_heap) = 1"
      "left ((scalar_heap @ cs) ! length scalar_heap) = None"
      by (auto simp: digit_def kept_def)
    then show ?thesis by simp
  qed
qed

text \<open>
  C4, amended.  Demo24: with all weights 1, all biases 0 and a base of at least 2,
  \<open>forward\<close> gives for every output key a number that reads as the plain sum of the
  inputs, a missing input counting 0.  Demo23: with all weights 1, all biases 0 and a non-zero modulus
  configured for every output key, \<open>forward\<close> of an input that has every configured input
  key gives, for every output key, the sum of the inputs reduced modulo that key's
  modulus.  Demo28: with all weights 1 and all biases 0 (plain cells) and no input above
  10, \<open>forward\<close> gives for every output key a cell whose chain of left links ends, and
  read along that chain (the cell itself, then ten times the rest of the chain) the
  coefficient \<open>a\<close> is the plain sum of the inputs, a missing input counting 0, and every
  other coefficient is 0; \<open>forward\<close> writes no cell that was there before.
\<close>

theorem C4_forward_unit_weights:
  "((\<forall>k \<in> set (input_keys L). input_qn k \<noteq> None)
      \<and> (\<forall>out_k \<in> set (output_keys L). unit_output_d23 L out_k)
     \<longrightarrow> (\<exists>output_qn. forward_d23 L input_qn = Inr output_qn
           \<and> (\<forall>out_k \<in> set (output_keys L). output_qn out_k
                = Some ((\<Sum>k\<leftarrow>input_keys L. get0 input_qn k) mod the (bases L out_k)))))
   \<and> ((\<forall>owd \<in> set (weights28 M). unit_output_d28 h M input_vector owd)
      \<and> distinct (map fst (weights28 M))
     \<longrightarrow> (\<exists>h' outp. forward_d28 h M input_vector = Inr (h', outp)
           \<and> (\<forall>p < length h. h' ! p = h ! p)
           \<and> (\<forall>owd \<in> set (weights28 M). \<exists>s ps. outp (fst owd) = Some s \<and> chain h' s ps
                \<and> recon h' FA ps = (\<Sum>iq\<leftarrow>snd owd. get0 input_vector (fst iq))
                \<and> (\<forall>fld. fld \<noteq> FA \<longrightarrow> recon h' fld ps = 0))))
   \<and> (2 \<le> base_d24 N \<and> (\<forall>out_k \<in> set (output_keys24 N). unit_output_d24 N out_k)
     \<longrightarrow> (\<exists>outp. forward_d24 N inp = Some (Inr outp)
           \<and> (\<forall>out_k \<in> set (output_keys24 N). \<exists>q. outp out_k = Some q
                \<and> to_int q = (\<Sum>k\<leftarrow>input_keys24 N. get0 inp k))))"
proof (intro conjI impI)
  assume "2 \<le> base_d24 N \<and> (\<forall>out_k \<in> set (output_keys24 N). unit_output_d24 N out_k)"
  then have "2 \<le> base_d24 N" and "\<forall>out_k \<in> set (output_keys24 N). unit_output_d24 N out_k"
    by simp_all
  then show "\<exists>outp. forward_d24 N inp = Some (Inr outp)
           \<and> (\<forall>out_k \<in> set (output_keys24 N). \<exists>q. outp out_k = Some q
                \<and> to_int q = (\<Sum>k\<leftarrow>input_keys24 N. get0 inp k))"
    by (rule forward_d24_ones)
next
  assume "(\<forall>k \<in> set (input_keys L). input_qn k \<noteq> None)
      \<and> (\<forall>out_k \<in> set (output_keys L). unit_output_d23 L out_k)"
  then have "\<forall>k \<in> set (input_keys L). input_qn k \<noteq> None"
    and "\<forall>out_k \<in> set (output_keys L). unit_output_d23 L out_k"
    by simp_all
  then show "\<exists>output_qn. forward_d23 L input_qn = Inr output_qn
           \<and> (\<forall>out_k \<in> set (output_keys L). output_qn out_k
                = Some ((\<Sum>k\<leftarrow>input_keys L. get0 input_qn k) mod the (bases L out_k)))"
    by (rule forward_d23_ones)
next
  assume a: "(\<forall>owd \<in> set (weights28 M). unit_output_d28 h M input_vector owd)
      \<and> distinct (map fst (weights28 M))"
  then have a1: "\<forall>owd \<in> set (weights28 M). unit_output_d28 h M input_vector owd"
    and a2: "distinct (map fst (weights28 M))"
    by simp_all
  from forward_outputs_d28_reading[OF a1 a2, of Map.empty]
  obtain h' outp where r: "forward_outputs_d28 h M input_vector Map.empty (weights28 M) = Inr (h', outp)"
    "\<forall>p < length h. h' ! p = h ! p"
    "\<forall>owd \<in> set (weights28 M). \<exists>s ps. outp (fst owd) = Some s \<and> chain h' s ps
           \<and> reads h' ps (input_sum input_vector (snd owd))"
    by blast
  have "\<forall>owd \<in> set (weights28 M). \<exists>s ps. outp (fst owd) = Some s \<and> chain h' s ps
                \<and> recon h' FA ps = (\<Sum>iq\<leftarrow>snd owd. get0 input_vector (fst iq))
                \<and> (\<forall>fld. fld \<noteq> FA \<longrightarrow> recon h' fld ps = 0)"
  proof
    fix owd assume "owd \<in> set (weights28 M)"
    with r(3) obtain s ps where "outp (fst owd) = Some s" "chain h' s ps"
      "reads h' ps (input_sum input_vector (snd owd))"
      by blast
    then show "\<exists>s ps. outp (fst owd) = Some s \<and> chain h' s ps
                \<and> recon h' FA ps = (\<Sum>iq\<leftarrow>snd owd. get0 input_vector (fst iq))
                \<and> (\<forall>fld. fld \<noteq> FA \<longrightarrow> recon h' fld ps = 0)"
      by (intro exI[of _ s] exI[of _ ps]) (simp add: reads_def input_sum_def)
  qed
  with r(1,2) show "\<exists>h' outp. forward_d28 h M input_vector = Inr (h', outp)
           \<and> (\<forall>p < length h. h' ! p = h ! p)
           \<and> (\<forall>owd \<in> set (weights28 M). \<exists>s ps. outp (fst owd) = Some s \<and> chain h' s ps
                \<and> recon h' FA ps = (\<Sum>iq\<leftarrow>snd owd. get0 input_vector (fst iq))
                \<and> (\<forall>fld. fld \<noteq> FA \<longrightarrow> recon h' fld ps = 0))"
    unfolding forward_d28_def by blast
qed

theorem C4_forward_unit_weights_witness:
  "(\<exists>output_qn. forward_d23 layer23_example [''a'' \<mapsto> 9] = Inr output_qn
       \<and> output_qn ''x'' = Some 2)
   \<and> (\<exists>h' outp s ps. forward_d28 pair_heap pair_layer pair_input = Inr (h', outp)
       \<and> outp ''o'' = Some s \<and> chain h' s ps \<and> recon h' FA ps = 13)
   \<and> (\<exists>outp q. forward_d24 layer24_example [''a'' \<mapsto> 123] = Some (Inr outp)
       \<and> outp ''x'' = Some q \<and> to_int q = 123)"
proof -
  have 1: "(\<forall>k \<in> set (input_keys layer23_example). [''a'' \<mapsto> (9::int)] k \<noteq> None)
      \<and> (\<forall>out_k \<in> set (output_keys layer23_example). unit_output_d23 layer23_example out_k)"
    by (simp add: layer23_example_def unit_output_d23_def)
  have 2: "(\<forall>owd \<in> set (weights28 pair_layer). unit_output_d28 pair_heap pair_layer pair_input owd)
      \<and> distinct (map fst (weights28 pair_layer))"
    by (simp add: pair_layer_def pair_heap_def pair_input_def unit_output_d28_def
        plain_def cell_a_def new_cell_def get0_def)
  note C = C4_forward_unit_weights[of layer23_example "[''a'' \<mapsto> 9]" pair_layer pair_heap
      pair_input layer24_example "[''a'' \<mapsto> 123]"]
  from mp[OF conjunct2[OF conjunct2[OF C]] layer24_example_unit]
  have "\<exists>outp. forward_d24 layer24_example [''a'' \<mapsto> 123] = Some (Inr outp)
           \<and> (\<forall>out_k \<in> set (output_keys24 layer24_example). \<exists>q. outp out_k = Some q
                \<and> to_int q = (\<Sum>k\<leftarrow>input_keys24 layer24_example. get0 [''a'' \<mapsto> 123] k))" .
  then have c: "\<exists>outp q. forward_d24 layer24_example [''a'' \<mapsto> 123] = Some (Inr outp)
       \<and> outp ''x'' = Some q \<and> to_int q = 123"
    by (auto simp: layer24_example_def get0_def)
  from mp[OF conjunct1[OF C] 1]
  have a: "\<exists>output_qn. forward_d23 layer23_example [''a'' \<mapsto> 9] = Inr output_qn
           \<and> (\<forall>out_k \<in> set (output_keys layer23_example). output_qn out_k
                = Some ((\<Sum>k\<leftarrow>input_keys layer23_example. get0 [''a'' \<mapsto> 9] k)
                    mod the (bases layer23_example out_k)))" .
  from mp[OF conjunct1[OF conjunct2[OF C]] 2]
  have b: "\<exists>h' outp. forward_d28 pair_heap pair_layer pair_input = Inr (h', outp)
           \<and> (\<forall>p < length pair_heap. h' ! p = pair_heap ! p)
           \<and> (\<forall>owd \<in> set (weights28 pair_layer). \<exists>s ps. outp (fst owd) = Some s \<and> chain h' s ps
                \<and> recon h' FA ps = (\<Sum>iq\<leftarrow>snd owd. get0 pair_input (fst iq))
                \<and> (\<forall>fld. fld \<noteq> FA \<longrightarrow> recon h' fld ps = 0))" .
  from a have "\<exists>output_qn. forward_d23 layer23_example [''a'' \<mapsto> 9] = Inr output_qn
       \<and> output_qn ''x'' = Some 2"
    by (simp add: layer23_example_def get0_def)
  moreover from b have "\<exists>h' outp s ps. forward_d28 pair_heap pair_layer pair_input = Inr (h', outp)
       \<and> outp ''o'' = Some s \<and> chain h' s ps \<and> recon h' FA ps = 13"
    by (auto simp: pair_layer_def pair_input_def get0_def)
  ultimately show ?thesis using c by blast
qed

text \<open>
  C5, as the claim states it, fails twice.  \<open>forward\<close> given a key \<open>z\<close> outside the
  configured keys does not fail: the key is never looked at.  And \<open>backward\<close> given an
  input without the configured key \<open>a\<close> raises \<open>KeyError\<close> after it has written the bias.
\<close>

theorem C5_unknown_key_counterexample:
  "forward_d23 layer23_example [''a'' \<mapsto> 1, ''z'' \<mapsto> 5] = Inr [''x'' \<mapsto> 1]
   \<and> backward_d23 layer23_example Map.empty [''x'' \<mapsto> 5] [''x'' \<mapsto> 1] 1
       = Inl (KeyError, layer23_example\<lparr>biases := [''x'' \<mapsto> 4]\<rparr>)
   \<and> layer23_example\<lparr>biases := [''x'' \<mapsto> 4]\<rparr> \<noteq> layer23_example"
proof (intro conjI)
  show "forward_d23 layer23_example [''a'' \<mapsto> 1, ''z'' \<mapsto> 5] = Inr [''x'' \<mapsto> 1]"
    by (simp add: forward_d23_def layer23_example_def subscript_def)
  show "backward_d23 layer23_example Map.empty [''x'' \<mapsto> 5] [''x'' \<mapsto> 1] 1
       = Inl (KeyError, layer23_example\<lparr>biases := [''x'' \<mapsto> 4]\<rparr>)"
    by (simp add: backward_d23_def layer23_example_def subscript_def)
  have "biases (layer23_example\<lparr>biases := [''x'' \<mapsto> 4]\<rparr>) ''x'' \<noteq> biases layer23_example ''x''"
    by (simp add: layer23_example_def)
  then show "layer23_example\<lparr>biases := [''x'' \<mapsto> 4]\<rparr> \<noteq> layer23_example"
    by metis
qed

text \<open>
  C5, amended (Demo23): \<open>forward\<close> on a layer with an output key fails with \<open>KeyError\<close>
  when the input mapping lacks a configured input key, and it has no access to the
  layer's state to write it; a key outside the configured input keys is ignored.
  \<open>backward\<close> fails with \<open>KeyError\<close> and leaves the layer as it was when the target or the
  output mapping lacks a configured output key.  Demo24: \<open>forward\<close> reads a missing input
  key as 0 and ignores every key outside the configured input keys.
\<close>

theorem C5_missing_key_error:
  "(k \<in> set (input_keys L) \<and> input_qn k = None \<and> output_keys L \<noteq> []
      \<longrightarrow> forward_d23 L input_qn = Inl KeyError)
   \<and> ((\<forall>j \<in> set (input_keys L). input_qn j = input_qn' j)
      \<longrightarrow> forward_d23 L input_qn = forward_d23 L input_qn')
   \<and> (k \<in> set (output_keys L) \<and> (target_qn k = None \<or> output_qn k = None)
      \<longrightarrow> backward_d23 L input_qn target_qn output_qn learning_rate = Inl (KeyError, L))
   \<and> ((\<forall>j \<in> set (input_keys24 N). get0 inp j = get0 inp' j)
      \<longrightarrow> forward_d24 N inp = forward_d24 N inp')"
proof (intro conjI impI)
  assume "\<forall>j \<in> set (input_keys24 N). get0 inp j = get0 inp' j"
  then show "forward_d24 N inp = forward_d24 N inp'"
    by (rule forward_d24_cong)
next
  assume a: "k \<in> set (input_keys L) \<and> input_qn k = None \<and> output_keys L \<noteq> []"
  then obtain out_k ks where ks: "output_keys L = out_k # ks"
    by (cases "output_keys L") auto
  from a have "forward_inner_d23 L input_qn out_k b (input_keys L) = Inl KeyError" for b
    by (intro forward_inner_d23_missing[of k]) auto
  then show "forward_d23 L input_qn = Inl KeyError"
    by (simp add: forward_d23_def ks subscript_def split: option.split)
next
  assume "\<forall>j \<in> set (input_keys L). input_qn j = input_qn' j"
  then show "forward_d23 L input_qn = forward_d23 L input_qn'"
    unfolding forward_d23_def by (intro forward_outer_d23_cong) auto
next
  assume "k \<in> set (output_keys L) \<and> (target_qn k = None \<or> output_qn k = None)"
  then have "errors_d23 target_qn output_qn Map.empty (output_keys L) = Inl KeyError"
    by (intro errors_d23_missing[of k]) auto
  then show "backward_d23 L input_qn target_qn output_qn learning_rate = Inl (KeyError, L)"
    by (simp add: backward_d23_def)
qed

theorem C5_missing_key_error_witness:
  "forward_d23 layer23_example Map.empty = Inl KeyError
   \<and> backward_d23 layer23_example [''a'' \<mapsto> 1] Map.empty [''x'' \<mapsto> 1] 1
       = Inl (KeyError, layer23_example)
   \<and> forward_d24 layer24_example Map.empty = forward_d24 layer24_example [''a'' \<mapsto> 0]"
proof -
  have 3: "\<forall>j \<in> set (input_keys24 layer24_example).
      get0 Map.empty j = get0 [''a'' \<mapsto> 0] j"
    by (simp add: layer24_example_def get0_def)
  from C5_missing_key_error[of "''a''" layer23_example Map.empty Map.empty "Map.empty"
      "Map.empty" 1 layer24_example Map.empty "[''a'' \<mapsto> 0]"] 3
  have c: "forward_d24 layer24_example Map.empty = forward_d24 layer24_example [''a'' \<mapsto> 0]"
    by blast
  have 1: "''a'' \<in> set (input_keys layer23_example) \<and> (Map.empty :: key \<rightharpoonup> int) ''a'' = None
      \<and> output_keys layer23_example \<noteq> []"
    by (simp add: layer23_example_def)
  have 2: "''x'' \<in> set (output_keys layer23_example)
      \<and> ((Map.empty :: key \<rightharpoonup> int) ''x'' = None \<or> [''x'' \<mapsto> (1::int)] ''x'' = None)"
    by (simp add: layer23_example_def)
  from C5_missing_key_error[of "''a''" layer23_example Map.empty Map.empty "Map.empty" "[''x'' \<mapsto> 1]"
      1 layer24_example Map.empty Map.empty]
    1 have a: "forward_d23 layer23_example Map.empty = Inl KeyError"
    by blast
  from C5_missing_key_error[of "''x''" layer23_example "[''a'' \<mapsto> 1]" "[''a'' \<mapsto> 1]" Map.empty "[''x'' \<mapsto> 1]"
      1 layer24_example Map.empty Map.empty]
    2 have "backward_d23 layer23_example [''a'' \<mapsto> 1] Map.empty [''x'' \<mapsto> 1] 1
       = Inl (KeyError, layer23_example)"
    by blast
  with a c show ?thesis by simp
qed

text \<open>
  C6, as the claim states it, fails: a cell with \<open>a = 16\<close> (a value \<open>train_step\<close> gives a
  delta cell) scaled by 1 comes out with \<open>a = 6\<close> and a new left cell holding 1.
\<close>

theorem C6_scale_one_counterexample:
  "scale_by_int_d28 [cell_a 16 None] 0 1 = [cell_a 6 (Some 1), cell_a 1 None]
   \<and> ca (scale_by_int_d28 [cell_a 16 None] 0 1 ! 0) \<noteq> ca ([cell_a 16 None] ! 0)"
  by (simp add: scale_by_int_d28_unfold cell_eval)

text \<open>
  C6, amended: for every cell \<open>x\<close> none of whose six coefficients is above 10,
  \<open>scale_by_int(x, 1)\<close> leaves \<open>x\<close> and every other cell of the store as they are; the
  carry cell it allocates is all zero and linked nowhere.
\<close>

theorem C6_scale_one_identity:
  assumes "x < length h" and "\<forall>fld. getattr (h ! x) fld \<le> 10"
  shows "scale_by_int_d28 h x 1 = h @ [new_cell]"
proof -
  from assms(2) have "\<not> scale_overflows (h ! x) 1"
    by (simp add: scale_overflows_iff not_less)
  with assms(1) show ?thesis
    by (simp add: scale_by_int_d28_unfold cell_scale_one)
qed

theorem C6_scale_one_identity_witness:
  "scale_by_int_d28 [cell_a 10 None] 0 1 = [cell_a 10 None, new_cell]"
proof -
  have "(0::nat) < length [cell_a 10 None]" by simp
  moreover have "\<forall>fld. getattr ([cell_a 10 None] ! 0) fld \<le> 10"
  proof
    fix fld show "getattr ([cell_a 10 None] ! 0) fld \<le> 10"
      by (cases fld) (simp_all add: cell_a_def new_cell_def)
  qed
  ultimately show ?thesis
    using C6_scale_one_identity[of 0 "[cell_a 10 None]"] by simp
qed

text \<open>
  C7: if the six coefficients of \<open>x\<close> and of \<open>y\<close> are non-negative and below half of the
  radix 10, then after \<open>add(x, y)\<close> every field of \<open>x\<close> is the plain sum and below 10, the
  left link of \<open>x\<close> is what it was, every other cell is what it was, and the carry cell
  the call allocated is all zero and linked from nowhere.
\<close>

theorem C7_no_overflow_add:
  assumes "x < length h" and "y < length h"
    and "\<forall>fld. 0 \<le> getattr (h ! x) fld \<and> 2 * getattr (h ! x) fld < 10"
    and "\<forall>fld. 0 \<le> getattr (h ! y) fld \<and> 2 * getattr (h ! y) fld < 10"
  shows "(\<forall>fld. getattr (add_d28 h x y ! x) fld = getattr (h ! x) fld + getattr (h ! y) fld
            \<and> getattr (add_d28 h x y ! x) fld < 10)
       \<and> left (add_d28 h x y ! x) = left (h ! x)
       \<and> (\<forall>p < length h. p \<noteq> x \<longrightarrow> add_d28 h x y ! p = h ! p)
       \<and> add_d28 h x y = h[x := cell_add (h ! x) (h ! y)] @ [new_cell]"
proof -
  have small: "getattr (h ! x) fld + getattr (h ! y) fld < 10" for fld
  proof -
    from assms(3) have "2 * getattr (h ! x) fld < 10" by blast
    moreover from assms(4) have "2 * getattr (h ! y) fld < 10" by blast
    ultimately show ?thesis by arith
  qed
  have no: "\<not> overflows (h ! x) (h ! y)"
  proof
    assume "overflows (h ! x) (h ! y)"
    then obtain fld where "getattr (h ! x) fld + getattr (h ! y) fld > 10"
      unfolding overflows_iff ..
    with small[of fld] show False by simp
  qed
  have eq: "add_d28 h x y = h[x := cell_add (h ! x) (h ! y)] @ [new_cell]"
    using assms(1,2) no by (simp add: add_d28_unfold cell_carry_no_overflow)
  have fld: "getattr (add_d28 h x y ! x) fld = getattr (h ! x) fld + getattr (h ! y) fld" for fld
    using assms(1) no by (simp add: eq nth_append getattr_cell_add not_overflows_kept)
  show ?thesis
  proof (intro conjI allI impI)
    fix fld
    show "getattr (add_d28 h x y ! x) fld = getattr (h ! x) fld + getattr (h ! y) fld"
      by (rule fld)
    show "getattr (add_d28 h x y ! x) fld < 10"
      using small[of fld] by (simp add: fld)
  next
    show "left (add_d28 h x y ! x) = left (h ! x)"
      using assms(1) by (simp add: eq nth_append cell_add_def)
  next
    fix p assume "p < length h" "p \<noteq> x"
    then show "add_d28 h x y ! p = h ! p"
      by (simp add: eq nth_append)
  next
    show "add_d28 h x y = h[x := cell_add (h ! x) (h ! y)] @ [new_cell]"
      by (rule eq)
  qed
qed

theorem C7_no_overflow_add_witness:
  "add_d28 (add_example 4 4) 0 1 = [cell_a 8 None, cell_a 4 None, new_cell]"
proof -
  have small: "\<forall>fld. 0 \<le> getattr (add_example 4 4 ! p) fld \<and> 2 * getattr (add_example 4 4 ! p) fld < 10"
    if "p < 2" for p
  proof
    fix fld
    from that have "p = 0 \<or> p = 1" by auto
    then show "0 \<le> getattr (add_example 4 4 ! p) fld \<and> 2 * getattr (add_example 4 4 ! p) fld < 10"
      by (cases fld) (auto simp: add_example_def cell_a_def new_cell_def)
  qed
  have "(0::nat) < length (add_example 4 4)" "(1::nat) < length (add_example 4 4)"
    by (simp_all add: add_example_def)
  from C7_no_overflow_add[OF this small small]
  have "add_d28 (add_example 4 4) 0 1 =
      (add_example 4 4)[0 := cell_add (add_example 4 4 ! 0) (add_example 4 4 ! 1)] @ [new_cell]"
    by simp
  then show ?thesis
    by (simp add: add_example_def cell_eval)
qed

text \<open>
  C8, as the claim states it, fails for \<open>divide\<close> of Demo6.  Dividing a fresh cell
  (\<open>signs = 0\<close>) by \<open>-4\<close> without the flag leaves \<open>signs\<close> at 0: no bit is toggled.  With
  the flag, \<open>signs\<close> becomes 8: bit 3 is toggled, bits 1 and 4 are not.
\<close>

theorem C8_divide_d6_counterexample:
  "signs new_cell = 0
   \<and> signs (divide_d6 new_cell (- 4) False) = 0
   \<and> signs (divide_d6 new_cell (- 4) True) = 8
   \<and> \<not> bit (signs (divide_d6 new_cell (- 4) True)) 1
   \<and> \<not> bit (signs (divide_d6 new_cell (- 4) True)) 4
   \<and> bit (signs (divide_d6 new_cell (- 4) True)) 3"
  by (simp add: divide_d6_def new_cell_def bit_eight)

text \<open>
  C8, amended.  Demo5: a negative factor makes \<open>multiply_by\<close> toggle bits 0 and 3 of
  \<open>signs\<close> (the signs of \<open>a\<close> and \<open>d\<close>) and no other bit; a negative divisor makes
  \<open>divide_by\<close> toggle bits 1 and 4 (the signs of \<open>b\<close> and \<open>e\<close>) and no other bit.  Demo6:
  \<open>divide\<close> does not look at the sign of its factor; it toggles bit 3 of \<open>signs\<close> and no
  other bit when the caller passes \<open>sign_flip\<close>, and no bit at all otherwise.
\<close>

theorem C8_negative_scalar_sign_bits:
  assumes "k < 0"
  shows "(\<forall>i. bit (signs (multiply_by_d5 q k)) i \<longleftrightarrow>
             (if i = 0 \<or> i = 3 then \<not> bit (signs q) i else bit (signs q) i))
       \<and> (\<forall>i. bit (signs (divide_by_d5 q k)) i \<longleftrightarrow>
             (if i = 1 \<or> i = 4 then \<not> bit (signs q) i else bit (signs q) i))
       \<and> (\<forall>i. bit (signs (divide_d6 q k sign_flip)) i \<longleftrightarrow>
             (if sign_flip \<and> i = 3 then \<not> bit (signs q) i else bit (signs q) i))"
proof -
  have m: "signs (multiply_by_d5 q k) = (signs q XOR 2 ^ 0) XOR 2 ^ 3"
    using assms by (simp add: multiply_by_d5_def toggle_sign_bit_def)
  have d: "signs (divide_by_d5 q k) = (signs q XOR 2 ^ 1) XOR 2 ^ 4"
    using assms by (simp add: divide_by_d5_def toggle_sign_bit_def)
  have s: "signs (divide_d6 q k sign_flip) = (if sign_flip then signs q XOR 8 else signs q)"
    by (simp add: divide_d6_def)
  have "\<forall>i. bit (signs (divide_d6 q k sign_flip)) i \<longleftrightarrow>
             (if sign_flip \<and> i = 3 then \<not> bit (signs q) i else bit (signs q) i)"
    unfolding s by (simp add: bit_xor_iff bit_eight)
  moreover have "(\<forall>i. bit (signs (multiply_by_d5 q k)) i \<longleftrightarrow>
             (if i = 0 \<or> i = 3 then \<not> bit (signs q) i else bit (signs q) i))
       \<and> (\<forall>i. bit (signs (divide_by_d5 q k)) i \<longleftrightarrow>
             (if i = 1 \<or> i = 4 then \<not> bit (signs q) i else bit (signs q) i))"
    unfolding m d using bit_toggle_two[of 0 3 "signs q"] bit_toggle_two[of 1 4 "signs q"]
    by simp
  ultimately show ?thesis by blast
qed

theorem C8_negative_scalar_sign_bits_witness:
  "signs (multiply_by_d5 new_cell (- 2)) = 9 \<and> signs (divide_by_d5 new_cell (- 4)) = 18
   \<and> (\<forall>i. bit (signs (multiply_by_d5 new_cell (- 2))) i \<longleftrightarrow>
             (if i = 0 \<or> i = 3 then \<not> bit (signs new_cell) i else bit (signs new_cell) i))
   \<and> (\<forall>i. bit (signs (divide_d6 new_cell (- 2) True)) i \<longleftrightarrow>
             (if i = 3 then \<not> bit (signs new_cell) i else bit (signs new_cell) i))"
  using C8_negative_scalar_sign_bits[where k = "- 2" and q = new_cell and sign_flip = True]
  by (simp add: multiply_by_d5_def divide_by_d5_def toggle_sign_bit_def new_cell_def)

text \<open>
  C9, as the claim states it, fails: \<open>add\<close> of Demo28 leaves \<open>metadata\<close> as it is, also
  when it carries.
\<close>

theorem C9_metadata_counterexample:
  "\<not> metadata (add_example 6 7 ! 0) < metadata (add_d28 (add_example 6 7) 0 1 ! 0)"
  by (simp add: add_example_def add_d28_unfold cell_eval)

text \<open>
  C9, amended: no operation decrements \<open>metadata\<close>.  \<open>multiply\<close> and \<open>divide\<close> of Demo7 add
  1 to it; \<open>relu_activation\<close> of Demo7 adds 1 when it clears a negative \<open>a\<close> and leaves it
  otherwise; \<open>add\<close> and \<open>scale_by_int\<close> of Demo28 and \<open>relu\<close> of Demo17 leave the
  \<open>metadata\<close> of every cell as it is.
\<close>

theorem C9_metadata_never_decremented:
  "metadata (multiply_d7 q k sign_flip) = metadata q + 1
   \<and> metadata (divide_d7 q k sign_flip) = metadata q + 1
   \<and> metadata (relu_activation_d7 q) = (if signs q AND 1 \<noteq> 0 then metadata q + 1 else metadata q)
   \<and> metadata (relu_d17 q) = metadata q
   \<and> (p < length h \<longrightarrow> metadata (add_d28 h x y ! p) = metadata (h ! p))
   \<and> (p < length h \<longrightarrow> metadata (scale_by_int_d28 h x k ! p) = metadata (h ! p))"
proof (intro conjI impI)
  assume "p < length h"
  then show "metadata (add_d28 h x y ! p) = metadata (h ! p)"
    using add_d28_same_frame[of p h x y] by (simp add: same_frame_def)
next
  assume "p < length h"
  then show "metadata (scale_by_int_d28 h x k ! p) = metadata (h ! p)"
    using scale_by_int_d28_same_frame[of p h x k] by (simp add: same_frame_def)
qed (simp_all add: multiply_d7_def divide_d7_def relu_activation_d7_def relu_d17_def Let_def)

theorem C9_metadata_never_decremented_witness:
  "metadata (add_d28 (add_example 6 7) 0 1 ! 0) = 0
   \<and> metadata (scale_by_int_d28 [cell_a 16 None] 0 1 ! 0) = 0
   \<and> metadata (multiply_d7 new_cell 3 True) = 1"
  using C9_metadata_never_decremented[of new_cell 3 True 0 "add_example 6 7" 0 1]
    C9_metadata_never_decremented[of new_cell 1 True 0 "[cell_a 16 None]" 0 0]
  by (simp add: add_example_def cell_a_def new_cell_def)

text \<open>
  C10, as the claim states it, fails when \<open>y\<close> is a cell of the left-chain of \<open>x\<close>: with
  \<open>x.a = 9\<close>, \<open>x.left = y\<close> and \<open>y.a = 5\<close>, the call \<open>add(x, y)\<close> carries into \<open>y\<close> and leaves
  \<open>y.a = 6\<close>.
\<close>

theorem C10_operand_modified_counterexample:
  "chain alias_example 0 [0, 1]
   \<and> ca (alias_example ! 1) = 5
   \<and> ca (add_d28 alias_example 0 1 ! 1) = 6
   \<and> add_d28 alias_example 0 1 ! 1 \<noteq> alias_example ! 1"
  by (simp add: alias_example_def add_d28_unfold cell_eval)

text \<open>
  C10, amended: for every cell \<open>x\<close> with a finite left-chain and every cell \<open>y\<close> that is
  not on that chain, \<open>add(x, y)\<close> leaves \<open>y\<close> as it is, all fields and links; and on \<open>x\<close>,
  whatever \<open>y\<close> is, \<open>signs\<close>, \<open>metadata\<close> and the links \<open>right\<close>, \<open>up\<close>, \<open>down\<close>, \<open>in\<close>,
  \<open>out\<close> are as before.
\<close>

theorem C10_add_frame:
  assumes "chain h x ps" and "y < length h"
  shows "(y \<notin> set ps \<longrightarrow> add_d28 h x y ! y = h ! y)
       \<and> signs (add_d28 h x y ! x) = signs (h ! x)
       \<and> metadata (add_d28 h x y ! x) = metadata (h ! x)
       \<and> right (add_d28 h x y ! x) = right (h ! x)
       \<and> up (add_d28 h x y ! x) = up (h ! x)
       \<and> down (add_d28 h x y ! x) = down (h ! x)
       \<and> in_ptr (add_d28 h x y ! x) = in_ptr (h ! x)
       \<and> out (add_d28 h x y ! x) = out (h ! x)"
proof -
  from chain_hd[OF assms(1)] obtain rs where "ps = x # rs" by auto
  with chain_in_heap[OF assms(1), of x] have "x < length h" by simp
  then have "same_frame (h ! x) (add_d28 h x y ! x)"
    by (rule add_d28_same_frame)
  moreover have "add_d28 h x y ! y = h ! y" if "y \<notin> set ps"
    using assms(1,2) assms(2) that by (rule add_d28_frame)
  ultimately show ?thesis
    by (simp add: same_frame_def)
qed

theorem C10_add_frame_witness:
  "add_d28 (add_example 6 7) 0 1 ! 1 = add_example 6 7 ! 1
   \<and> signs (add_d28 (add_example 6 7) 0 1 ! 0) = 0"
proof -
  have "chain (add_example 6 7) 0 [0]" "(1::nat) < length (add_example 6 7)"
    by (simp_all add: add_example_def cell_a_def new_cell_def)
  from C10_add_frame[OF this]
  show ?thesis by (simp add: add_example_def cell_a_def new_cell_def)
qed

end
